theory Spec2Isabelle
  imports Complex_Main "HOL-Library.Word" "HOL-Library.Multiset"
begin

section \<open>Paginator (lib.js: getPageSlice, calcTotalPages, buildPageList)\<close>

text \<open>
  \<^verbatim>\<open>Array.prototype.slice(start, end)\<close> on integer arguments: a negative index counts from
  the end of the array, both indices are clamped to \<open>[0, length]\<close>, and the result is
  empty when the clamped end does not lie after the clamped start.
\<close>

definition js_slice :: "'a list \<Rightarrow> int \<Rightarrow> int \<Rightarrow> 'a list" where
  "js_slice xs start stop =
     (let len = int (length xs);
          k = (if start < 0 then max (len + start) 0 else min start len);
          fin = (if stop < 0 then max (len + stop) 0 else min stop len)
      in take (nat (fin - k)) (drop (nat k) xs))"

definition getPageSlice :: "'a list \<Rightarrow> int \<Rightarrow> int \<Rightarrow> 'a list" where
  "getPageSlice filtered page pageSize =
     (if pageSize = 0 then filtered
      else let start = (page - 1) * pageSize
           in js_slice filtered start (start + pageSize))"

text \<open>
  \<^verbatim>\<open>Math.ceil(filteredCount / pageSize)\<close>: the quotient is taken in the rationals and rounded
  up. (For array lengths and page sizes the double-precision quotient rounds to the same
  integer.)
\<close>

definition calcTotalPages :: "int \<Rightarrow> int \<Rightarrow> int" where
  "calcTotalPages filteredCount pageSize =
     (if pageSize = 0 then 1
      else max 1 \<lceil>rat_of_int filteredCount / rat_of_int pageSize\<rceil>)"

text \<open>
  The half-open slice \<open>[lo, hi)\<close> of a row sequence, clipped to the rows that exist: the
  rows at the indices \<open>i\<close> with \<open>lo \<le> i < hi\<close>, in order. This is the wording of the
  specification, not the code.
\<close>

definition half_open_slice :: "'a list \<Rightarrow> int \<Rightarrow> int \<Rightarrow> 'a list" where
  "half_open_slice xs lo hi =
     map (\<lambda>i. xs ! i) (filter (\<lambda>i. lo \<le> int i \<and> int i < hi) [0..<length xs])"

datatype page_item = Page int | Ellipsis

text \<open>
  The closure \<^verbatim>\<open>addEllipsis\<close>: push a marker unless the last entry is one already
  (\<^verbatim>\<open>result[result.length - 1]\<close> is \<^verbatim>\<open>undefined\<close> on an empty array, which is not a marker).
\<close>

definition addEllipsis :: "page_item list \<Rightarrow> page_item list" where
  "addEllipsis result =
     (if result \<noteq> [] \<and> last result = Ellipsis then result else result @ [Ellipsis])"

definition buildPageList :: "int \<Rightarrow> int \<Rightarrow> page_item list" where
  "buildPageList cur tot =
     (if tot \<le> 7 then map Page [1..tot]
      else
        let result = [Page 1];
            result = (if cur > 3 then addEllipsis result else result);
            result = result @ map Page [max 2 (cur - 1)..min (tot - 1) (cur + 1)];
            result = (if cur < tot - 2 then addEllipsis result else result)
        in result @ [Page tot])"

fun adjacent_ellipsis :: "page_item list \<Rightarrow> bool" where
  "adjacent_ellipsis (Ellipsis # Ellipsis # xs) = True"
| "adjacent_ellipsis (x # xs) = adjacent_ellipsis xs"
| "adjacent_ellipsis [] = False"

section \<open>Strings and rows\<close>

text \<open>
  A JavaScript string is a sequence of 16-bit code units. A cell of a row is a string, or
  \<^verbatim>\<open>null\<close>/\<^verbatim>\<open>undefined\<close> (\<open>None\<close>); reading a row beyond its length yields \<^verbatim>\<open>undefined\<close>.
\<close>

type_synonym jschar = "16 word"
type_synonym jsstring = "jschar list"
type_synonym cell = "jsstring option"
type_synonym row = "cell list"

text \<open>String literals of the theory, as code units.\<close>

definition S :: "string \<Rightarrow> jsstring" where
  "S s = map (\<lambda>c. word_of_nat (of_char c)) s"

text \<open>\<^verbatim>\<open>v == null ? '' : v\<close>, and \<^verbatim>\<open>v || ''\<close> on a string or \<^verbatim>\<open>null\<close>.\<close>

definition cell_str :: "cell \<Rightarrow> jsstring" where
  "cell_str v = (case v of None \<Rightarrow> [] | Some s \<Rightarrow> s)"

text \<open>\<^verbatim>\<open>row[c]\<close>.\<close>

definition field :: "'a option list \<Rightarrow> nat \<Rightarrow> 'a option" where
  "field r c = (if c < length r then r ! c else None)"

text \<open>\<^verbatim>\<open>s.includes(t)\<close>: \<open>t\<close> occurs in \<open>s\<close> as a contiguous run of code units.\<close>

fun str_includes :: "jsstring \<Rightarrow> jsstring \<Rightarrow> bool" where
  "str_includes [] t = (t = [])"
| "str_includes (c # cs) t = (take (length t) (c # cs) = t \<or> str_includes cs t)"

text \<open>
  \<^verbatim>\<open>String.prototype.toLowerCase\<close> is a builtin of the host; the functions below take it as
  the parameter \<open>toLowerCase\<close>. Its restriction to ASCII, used to evaluate examples:
\<close>

definition toLowerCase_ascii :: "jsstring \<Rightarrow> jsstring" where
  "toLowerCase_ascii s = map (\<lambda>c. if 0x41 \<le> c \<and> c \<le> 0x5A then c + 0x20 else c) s"

section \<open>Filter engine (lib.js: filterRows)\<close>

text \<open>
  The \<^verbatim>\<open>for\<close> loop over the columns \<open>c = 0, ..., colCount - 1\<close>, as a recursion over the list
  of these indices: an absent or empty filter is skipped, the first failing column rejects
  the row.
\<close>

fun col_loop :: "(jsstring \<Rightarrow> jsstring) \<Rightarrow> jsstring list \<Rightarrow> row \<Rightarrow> nat list \<Rightarrow> bool" where
  "col_loop toLowerCase colLowers r [] = True"
| "col_loop toLowerCase colLowers r (c # cs) =
     (let f = (if c < length colLowers then colLowers ! c else [])
      in if f = [] then col_loop toLowerCase colLowers r cs
         else if \<not> str_includes (toLowerCase (cell_str (field r c))) f then False
         else col_loop toLowerCase colLowers r cs)"

definition filterRows ::
  "(jsstring \<Rightarrow> jsstring) \<Rightarrow> row list \<Rightarrow> jsstring list option \<Rightarrow> jsstring option
     \<Rightarrow> jsstring option list option \<Rightarrow> row list" where
  "filterRows toLowerCase data headers globalSearch colFilters =
     (let gLower = toLowerCase (cell_str globalSearch);
          colLowers = map (\<lambda>f. toLowerCase (cell_str f))
                        (case colFilters of None \<Rightarrow> [] | Some fs \<Rightarrow> fs);
          colCount = (case headers of None \<Rightarrow> 0 | Some hs \<Rightarrow> length hs)
      in filter (\<lambda>r.
           if gLower \<noteq> []
              \<and> \<not> list_ex (\<lambda>cell. str_includes (toLowerCase (cell_str cell)) gLower) r
           then False
           else col_loop toLowerCase colLowers r [0..<colCount]) data)"

text \<open>
  The wording of the specification: \<open>entry\<close> is a case-insensitive substring of \<open>fld\<close>
  when the lower-cased entry occurs in the lower-cased field.
\<close>

definition ci_substring :: "(jsstring \<Rightarrow> jsstring) \<Rightarrow> jsstring \<Rightarrow> jsstring \<Rightarrow> bool" where
  "ci_substring toLowerCase entry fld =
     (\<exists>before after. toLowerCase fld = before @ toLowerCase entry @ after)"

text \<open>
  The row predicate of the specification, with the column filters ranging over the
  columns below \<open>ncols\<close>: (a) the global search is empty or some field contains it, and
  (b) every column below \<open>ncols\<close> whose filter entry is non-empty contains that entry, a
  missing or null field read as the empty string.
\<close>

definition row_kept ::
  "(jsstring \<Rightarrow> jsstring) \<Rightarrow> nat \<Rightarrow> jsstring \<Rightarrow> jsstring option list \<Rightarrow> row \<Rightarrow> bool" where
  "row_kept toLowerCase ncols globalSearch colFilters r =
     ((globalSearch = []
        \<or> (\<exists>cell \<in> set r. ci_substring toLowerCase globalSearch (cell_str cell)))
      \<and> (\<forall>c < ncols. c < length colFilters \<longrightarrow> cell_str (colFilters ! c) \<noteq> [] \<longrightarrow>
             ci_substring toLowerCase (cell_str (colFilters ! c)) (cell_str (field r c))))"

section \<open>Parser (lib.js: parseCSV)\<close>

abbreviation BOM :: jschar where "BOM \<equiv> 0xFEFF"
abbreviation DQUOTE :: jschar where "DQUOTE \<equiv> 0x22"
abbreviation COMMA :: jschar where "COMMA \<equiv> 0x2C"
abbreviation SEMICOLON :: jschar where "SEMICOLON \<equiv> 0x3B"
abbreviation TAB :: jschar where "TAB \<equiv> 0x09"
abbreviation PIPE :: jschar where "PIPE \<equiv> 0x7C"
abbreviation CR :: jschar where "CR \<equiv> 0x0D"
abbreviation LF :: jschar where "LF \<equiv> 0x0A"

text \<open>
  \<^verbatim>\<open>String.prototype.trim\<close> removes the white space and line terminators of ECMAScript
  from both ends: TAB, LF, VT, FF, CR, SPACE, NBSP, the Unicode space separators, LS, PS and
  the byte-order mark.
\<close>

definition is_js_space :: "jschar \<Rightarrow> bool" where
  "is_js_space c =
     (c = 0x09 \<or> c = 0x0A \<or> c = 0x0B \<or> c = 0x0C \<or> c = 0x0D \<or> c = 0x20 \<or> c = 0xA0
      \<or> c = 0x1680 \<or> (0x2000 \<le> c \<and> c \<le> 0x200A) \<or> c = 0x2028 \<or> c = 0x2029
      \<or> c = 0x202F \<or> c = 0x205F \<or> c = 0x3000 \<or> c = 0xFEFF)"

definition trim :: "jsstring \<Rightarrow> jsstring" where
  "trim s = rev (dropWhile is_js_space (rev (dropWhile is_js_space s)))"

text \<open>\<^verbatim>\<open>if (text.charCodeAt(0) === 0xFEFF) text = text.slice(1)\<close>.\<close>

definition strip_bom :: "jsstring \<Rightarrow> jsstring" where
  "strip_bom text = (case text of [] \<Rightarrow> [] | c # cs \<Rightarrow> if c = BOM then cs else text)"

text \<open>
  \<^verbatim>\<open>text.split(/\r?\n/)[0]\<close>: the text before the first LF, without the CR that directly
  precedes that LF; the whole text when it has no LF.
\<close>

fun firstLine :: "jsstring \<Rightarrow> jsstring" where
  "firstLine [] = []"
| "firstLine (c # cs) =
     (if c = LF then []
      else if c = CR \<and> cs \<noteq> [] \<and> hd cs = LF then []
      else c # firstLine cs)"

text \<open>\<^verbatim>\<open>firstLine.split(d).length - 1\<close> for a one-character separator \<open>d\<close>.\<close>

definition occurrences :: "jschar \<Rightarrow> jsstring \<Rightarrow> nat" where
  "occurrences d line = length (filter (\<lambda>c. c = d) line)"

definition delims :: "jschar list" where
  "delims = [COMMA, SEMICOLON, TAB, PIPE]"

text \<open>The loop \<^verbatim>\<open>for (const d of delims)\<close> on the state \<open>(delim, maxCount)\<close>.\<close>

fun delim_loop :: "jsstring \<Rightarrow> jschar list \<Rightarrow> jschar \<times> nat \<Rightarrow> jschar \<times> nat" where
  "delim_loop line [] (delim, maxCount) = (delim, maxCount)"
| "delim_loop line (d # ds) (delim, maxCount) =
     (let count = occurrences d line
      in if count > maxCount then delim_loop line ds (d, count)
         else delim_loop line ds (delim, maxCount))"

definition detect_delim :: "jsstring \<Rightarrow> jschar" where
  "detect_delim text = fst (delim_loop (firstLine text) delims (COMMA, 0))"

text \<open>
  The scanner keeps one cursor \<open>i\<close> into the text; the model passes the text from the
  cursor on. \<open>quoted_field\<close> is the loop after an opening quote: it returns the field and
  the text after the closing quote (or the end of the text when the quote is not closed).
\<close>

fun quoted_field :: "jsstring \<Rightarrow> jsstring \<Rightarrow> jsstring \<times> jsstring" where
  "quoted_field fld [] = (fld, [])"
| "quoted_field fld (c # cs) =
     (if c = DQUOTE then
        (case cs of
           [] \<Rightarrow> (fld, cs)
         | c' # cs' \<Rightarrow> if c' = DQUOTE then quoted_field (fld @ [DQUOTE]) cs' else (fld, cs))
      else quoted_field (fld @ [c]) cs)"

text \<open>\<^verbatim>\<open>i++; if (i < n && text[i] === '\n') i++\<close> after a CR.\<close>

definition skip_lf :: "jsstring \<Rightarrow> jsstring" where
  "skip_lf text = (case text of [] \<Rightarrow> [] | c # cs \<Rightarrow> if c = LF then cs else text)"

text \<open>
  The inner loop \<^verbatim>\<open>while (i < n)\<close> that reads one row: it returns the row and the text
  after it. After a quoted field that is followed by neither the delimiter nor a line
  break the loop goes on with the next field of the same row; after an unquoted field it
  stops there.
\<close>

function parse_row :: "jschar \<Rightarrow> jsstring list \<Rightarrow> jsstring \<Rightarrow> jsstring list \<times> jsstring" where
  "parse_row delim r [] = (r, [])"
| "parse_row delim r (c # cs) =
     (if c = DQUOTE then
        (let fld = fst (quoted_field [] cs);
             rest = snd (quoted_field [] cs);
             r' = r @ [fld]
         in case rest of
              [] \<Rightarrow> (r', [])
            | x # xs \<Rightarrow>
                if x = delim then parse_row delim r' xs
                else if x = CR then (r', skip_lf xs)
                else if x = LF then (r', xs)
                else parse_row delim r' rest)
      else
        (let fld = takeWhile (\<lambda>x. x \<noteq> delim \<and> x \<noteq> CR \<and> x \<noteq> LF) (c # cs);
             rest = dropWhile (\<lambda>x. x \<noteq> delim \<and> x \<noteq> CR \<and> x \<noteq> LF) (c # cs);
             r' = r @ [trim fld]
         in case rest of
              [] \<Rightarrow> (r', [])
            | x # xs \<Rightarrow>
                if x = delim then parse_row delim r' xs
                else if x = CR then (r', skip_lf xs)
                else if x = LF then (r', xs)
                else (r', rest)))"
  by pat_completeness auto
termination
proof -
  have quoted_field_length: "length (snd (quoted_field fld t)) \<le> length t" for fld t
  proof (induction fld t rule: quoted_field.induct)
    case (1 fld)
    then show ?case by simp
  next
    case (2 fld c cs)
    show ?case
    proof (cases "c = DQUOTE")
      case True
      show ?thesis
      proof (cases cs)
        case Nil
        then show ?thesis using True by simp
      next
        case (Cons c' cs')
        then show ?thesis using True "2.IH"(1) [OF True Cons] by (cases "c' = DQUOTE") simp_all
      qed
    next
      case False
      then show ?thesis using "2.IH"(2) by simp
    qed
  qed
  show ?thesis
  proof (relation "measure (\<lambda>(delim, r, text). length text)")
    show "wf (measure (\<lambda>(delim, r, text). length text))" by simp
  next
    fix delim :: jschar and r :: "jsstring list" and c :: jschar and cs fld rest r' x xs
    assume "rest = snd (quoted_field [] cs)" "rest = x # xs"
    then have "length (x # xs) \<le> length cs"
      using quoted_field_length [of "[]" cs] by simp
    then show "((delim, r', xs), (delim, r, c # cs)) \<in> measure (\<lambda>(delim, r, text). length text)"
      by simp
  next
    fix delim :: jschar and r :: "jsstring list" and c :: jschar and cs fld rest r' x xs
    assume "rest = snd (quoted_field [] cs)" "rest = x # xs"
    then have "length rest \<le> length cs"
      using quoted_field_length [of "[]" cs] by simp
    then show "((delim, r', rest), (delim, r, c # cs)) \<in> measure (\<lambda>(delim, r, text). length text)"
      by simp
  next
    fix delim :: jschar and r :: "jsstring list" and c :: jschar and cs fld rest r' x xs
    assume "rest = dropWhile (\<lambda>x. x \<noteq> delim \<and> x \<noteq> CR \<and> x \<noteq> LF) (c # cs)" "rest = x # xs"
    then have "length (x # xs) \<le> length (c # cs)"
      using length_dropWhile_le [of "\<lambda>x. x \<noteq> delim \<and> x \<noteq> CR \<and> x \<noteq> LF" "c # cs"] by simp
    then show "((delim, r', xs), (delim, r, c # cs)) \<in> measure (\<lambda>(delim, r, text). length text)"
      by simp
  qed
qed

text \<open>
  The outer loop \<^verbatim>\<open>while (i < n)\<close>: a row is kept unless it is empty or consists of one
  empty field.
\<close>

function parse_rows :: "jschar \<Rightarrow> jsstring list list \<Rightarrow> jsstring \<Rightarrow> jsstring list list" where
  "parse_rows delim rows text =
     (if text = [] then rows
      else
        let r = fst (parse_row delim [] text);
            rest = snd (parse_row delim [] text)
        in parse_rows delim
             (if length r > 0 \<and> \<not> (length r = 1 \<and> r ! 0 = []) then rows @ [r] else rows)
             rest)"
  by pat_completeness auto
termination
proof -
  have quoted_field_length: "length (snd (quoted_field fld t)) \<le> length t" for fld t
  proof (induction fld t rule: quoted_field.induct)
    case (1 fld)
    then show ?case by simp
  next
    case (2 fld c cs)
    show ?case
    proof (cases "c = DQUOTE")
      case True
      show ?thesis
      proof (cases cs)
        case Nil
        then show ?thesis using True by simp
      next
        case (Cons c' cs')
        then show ?thesis using True "2.IH"(1) [OF True Cons] by (cases "c' = DQUOTE") simp_all
      qed
    next
      case False
      then show ?thesis using "2.IH"(2) by simp
    qed
  qed
  have skip_lf_length: "length (skip_lf t) \<le> length t" for t
    by (simp add: skip_lf_def split: list.splits)
  have dropWhile_hd_fails: "\<not> P y" if "dropWhile P xs = y # ys"
    for P and xs ys :: jsstring and y
    using that hd_dropWhile [of P xs] by auto
  have parse_row_rest_length: "length (snd (parse_row delim r t)) \<le> length t - 1"
    for delim r t
  proof (induction delim r t rule: parse_row.induct)
    case (1 delim r)
    then show ?case by simp
  next
    case (2 delim r c cs)
    show ?case
    proof (cases "c = DQUOTE")
      case True
      define fld where "fld = fst (quoted_field [] cs)"
      define rest where "rest = snd (quoted_field [] cs)"
      have le: "length rest \<le> length cs" unfolding rest_def by (rule quoted_field_length)
      show ?thesis
      proof (cases rest)
        case Nil
        then show ?thesis using True by (simp add: Let_def rest_def [symmetric])
      next
        case (Cons x xs)
        have len: "Suc (length xs) \<le> length cs" using le Cons by simp
        consider (d) "x = delim" | (cr) "x \<noteq> delim" "x = CR"
          | (lf) "x \<noteq> delim" "x \<noteq> CR" "x = LF"
          | (other) "x \<noteq> delim" "x \<noteq> CR" "x \<noteq> LF" by blast
        then show ?thesis
        proof cases
          case d
          have "length (snd (parse_row delim (r @ [fld]) xs)) \<le> length xs - 1"
            using "2.IH"(1) [OF True fld_def rest_def refl Cons d] .
          then show ?thesis using True Cons d len
            by (simp add: Let_def rest_def [symmetric] fld_def [symmetric])
        next
          case cr
          then show ?thesis using True Cons len skip_lf_length [of xs]
            by (simp add: Let_def rest_def [symmetric] fld_def [symmetric])
        next
          case lf
          then show ?thesis using True Cons len
            by (simp add: Let_def rest_def [symmetric] fld_def [symmetric])
        next
          case other
          have "length (snd (parse_row delim (r @ [fld]) rest)) \<le> length rest - 1"
            using "2.IH"(2) [OF True fld_def rest_def refl Cons other] .
          then show ?thesis using True Cons other len
            by (simp add: Let_def rest_def [symmetric] fld_def [symmetric])
        qed
      qed
    next
      case False
      define fld where "fld = takeWhile (\<lambda>x. x \<noteq> delim \<and> x \<noteq> CR \<and> x \<noteq> LF) (c # cs)"
      define rest where "rest = dropWhile (\<lambda>x. x \<noteq> delim \<and> x \<noteq> CR \<and> x \<noteq> LF) (c # cs)"
      have le: "length rest \<le> Suc (length cs)"
        unfolding rest_def
        by (rule order_trans [OF length_dropWhile_le]) simp
      show ?thesis
      proof (cases rest)
        case Nil
        then show ?thesis using False
          by (simp add: Let_def rest_def [symmetric] del: takeWhile.simps dropWhile.simps)
      next
        case (Cons x xs)
        have len: "length xs \<le> length cs" using le Cons by simp
        have stop: "x = delim \<or> x = CR \<or> x = LF"
          using dropWhile_hd_fails [OF Cons [unfolded rest_def]] by blast
        consider (d) "x = delim" | (cr) "x \<noteq> delim" "x = CR"
          | (lf) "x \<noteq> delim" "x \<noteq> CR" "x = LF" using stop by blast
        then show ?thesis
        proof cases
          case d
          have "length (snd (parse_row delim (r @ [trim fld]) xs)) \<le> length xs - 1"
            using "2.IH"(3) [OF False fld_def rest_def refl Cons d] .
          then show ?thesis using False Cons d len
            by (simp add: Let_def rest_def [symmetric] fld_def [symmetric]
                del: takeWhile.simps dropWhile.simps)
        next
          case cr
          then show ?thesis using False Cons len skip_lf_length [of xs]
            by (simp add: Let_def rest_def [symmetric] fld_def [symmetric]
                del: takeWhile.simps dropWhile.simps)
        next
          case lf
          then show ?thesis using False Cons len
            by (simp add: Let_def rest_def [symmetric] fld_def [symmetric]
                del: takeWhile.simps dropWhile.simps)
        qed
      qed
    qed
  qed

  have parse_row_progress: "length (snd (parse_row delim r t)) < length t" if "t \<noteq> []"
    for delim r t
    using that parse_row_rest_length [of delim r t] by (cases t) auto
  show ?thesis
    by (relation "measure (\<lambda>(delim, rows, text). length text)")
       (auto simp: parse_row_progress)
qed

record parsed =
  parsed_rows :: "jsstring list list"
  parsed_delim :: jschar

definition parseCSV :: "jsstring \<Rightarrow> parsed" where
  "parseCSV text0 =
     (let text = strip_bom text0;
          delim = detect_delim text
      in \<lparr> parsed_rows = parse_rows delim [] text, parsed_delim = delim \<rparr>)"

section \<open>Table builder (lib.js: buildData)\<close>

text \<open>The decimal digits of a number, for the template \<^verbatim>\<open>`Column ${i + 1}`\<close>.\<close>

fun decimal :: "nat \<Rightarrow> jsstring" where
  "decimal n = (if n < 10 then [0x30 + word_of_nat n]
                else decimal (n div 10) @ [0x30 + word_of_nat (n mod 10)])"

record table =
  table_headers :: "jsstring list"
  table_data :: "jsstring list list"

definition buildData :: "jsstring list list \<Rightarrow> table" where
  "buildData rs =
     (if length rs = 0 then \<lparr> table_headers = [], table_data = [] \<rparr>
      else \<lparr> table_headers = map (\<lambda>(h, i). if h = [] then S ''Column '' @ decimal (i + 1) else h)
                          (zip (rs ! 0) [0..<length (rs ! 0)]),
             table_data = drop 1 rs \<rparr>)"

section \<open>Exporter (lib.js: escapeCSVField; app.js: exportCSV)\<close>

definition escapeCSVField :: "cell \<Rightarrow> jsstring" where
  "escapeCSVField val =
     (let s = cell_str val
      in if COMMA \<in> set s \<or> DQUOTE \<in> set s \<or> LF \<in> set s \<or> CR \<in> set s
         then [DQUOTE] @ concat (map (\<lambda>c. if c = DQUOTE then [DQUOTE, DQUOTE] else [c]) s)
              @ [DQUOTE]
         else s)"

text \<open>\<^verbatim>\<open>Array.prototype.join\<close> on an array of strings.\<close>

fun join :: "jsstring \<Rightarrow> jsstring list \<Rightarrow> jsstring" where
  "join sep [] = []"
| "join sep [x] = x"
| "join sep (x # y # ys) = x @ sep @ join sep (y # ys)"

text \<open>
  The text that \<^verbatim>\<open>exportCSV\<close> hands to the download: the header line and one line for each
  row of the filtered set, each row read at the column indices of the headers, the lines
  joined with CRLF, after a byte-order mark.
\<close>

definition exportCSV :: "jsstring list \<Rightarrow> row list \<Rightarrow> jsstring" where
  "exportCSV hdrs filtered =
     (let lines = join [COMMA] (map (\<lambda>h. escapeCSVField (Some h)) hdrs)
                  # map (\<lambda>r. join [COMMA]
                                (map (\<lambda>c. escapeCSVField (field r c)) [0..<length hdrs]))
                        filtered
      in [BOM] @ join [CR, LF] lines)"

section \<open>Numbers of the host\<close>

text \<open>
  A JavaScript number, as far as the code depends on it: \<^verbatim>\<open>NaN\<close>, the two infinities, or
  a finite value. \<^verbatim>\<open>Number\<close>, \<^verbatim>\<open>parseFloat\<close>, \<^verbatim>\<open>Date.parse\<close> and \<^verbatim>\<open>localeCompare\<close> are
  builtins of the host; the functions below take them as parameters. \<^verbatim>\<open>Date.parse\<close>
  returns \<^verbatim>\<open>NaN\<close> (\<open>None\<close>) or a time value, an integral number of milliseconds.
\<close>

datatype jsnum = NaN | NegInfinity | PosInfinity | Finite rat

definition isNaN :: "jsnum \<Rightarrow> bool" where
  "isNaN v = (v = NaN)"

section \<open>Type detector (lib.js: detectColTypes)\<close>

datatype coltype = TNumber | TDate | TString

text \<open>\<^verbatim>\<open>val.replace(/,/g, '')\<close>.\<close>

definition strip_commas :: "jsstring \<Rightarrow> jsstring" where
  "strip_commas val = filter (\<lambda>c. c \<noteq> COMMA) val"

text \<open>
  The loop \<^verbatim>\<open>for (const row of sample)\<close> for the column \<open>c\<close>, on the counters
  \<open>(numOk, dateOk, total)\<close>.
\<close>

fun count_loop ::
  "(jsstring \<Rightarrow> jsnum) \<Rightarrow> (jsstring \<Rightarrow> int option) \<Rightarrow> nat \<Rightarrow> row list
     \<Rightarrow> nat \<times> nat \<times> nat \<Rightarrow> nat \<times> nat \<times> nat" where
  "count_loop Number Date_parse c [] (numOk, dateOk, tot) = (numOk, dateOk, tot)"
| "count_loop Number Date_parse c (r # sample) (numOk, dateOk, tot) =
     (let val = trim (cell_str (field r c))
      in if val = [] then count_loop Number Date_parse c sample (numOk, dateOk, tot)
         else if \<not> isNaN (Number (strip_commas val))
           then count_loop Number Date_parse c sample (numOk + 1, dateOk, tot + 1)
         else if Date_parse val \<noteq> None
           then count_loop Number Date_parse c sample (numOk, dateOk + 1, tot + 1)
         else count_loop Number Date_parse c sample (numOk, dateOk, tot + 1))"

text \<open>
  The decision at the end of the column loop. The quotients are taken in the rationals;
  for counters up to 500 the double-precision comparison with \<^verbatim>\<open>0.8\<close> gives the same
  answer.
\<close>

definition decide_type :: "nat \<times> nat \<times> nat \<Rightarrow> coltype" where
  "decide_type counters =
     (case counters of (numOk, dateOk, tot) \<Rightarrow>
        if tot = 0 then TString
        else if rat_of_nat numOk / rat_of_nat tot \<ge> 8 / 10 then TNumber
        else if rat_of_nat dateOk / rat_of_nat tot \<ge> 8 / 10 then TDate
        else TString)"

definition detectColTypes ::
  "(jsstring \<Rightarrow> jsnum) \<Rightarrow> (jsstring \<Rightarrow> int option) \<Rightarrow> jsstring list \<Rightarrow> row list
     \<Rightarrow> (nat \<rightharpoonup> coltype)" where
  "detectColTypes Number Date_parse hdrs rs =
     (let sample = js_slice rs 0 500
      in fold (\<lambda>c types. types(c \<mapsto> decide_type (count_loop Number Date_parse c sample (0, 0, 0))))
              [0..<length hdrs] Map.empty)"

text \<open>
  The wording of the specification. The values of a column are the non-empty trimmed
  fields of the first 500 rows; a value is numeric when it parses as a number after its
  commas are stripped, and it is counted as a date when it is not numeric and parses as a
  date.
\<close>

definition column_values :: "row list \<Rightarrow> nat \<Rightarrow> jsstring list" where
  "column_values rs c =
     filter (\<lambda>v. v \<noteq> []) (map (\<lambda>r. trim (cell_str (field r c))) (take 500 rs))"

definition counts_as_number :: "(jsstring \<Rightarrow> jsnum) \<Rightarrow> jsstring \<Rightarrow> bool" where
  "counts_as_number Number v = (Number (strip_commas v) \<noteq> NaN)"

definition counts_as_date ::
  "(jsstring \<Rightarrow> jsnum) \<Rightarrow> (jsstring \<Rightarrow> int option) \<Rightarrow> jsstring \<Rightarrow> bool" where
  "counts_as_date Number Date_parse v =
     (\<not> counts_as_number Number v \<and> Date_parse v \<noteq> None)"

definition fraction :: "('a \<Rightarrow> bool) \<Rightarrow> 'a list \<Rightarrow> rat" where
  "fraction P vs = rat_of_nat (length (filter P vs)) / rat_of_nat (length vs)"

definition column_type ::
  "(jsstring \<Rightarrow> jsnum) \<Rightarrow> (jsstring \<Rightarrow> int option) \<Rightarrow> row list \<Rightarrow> nat \<Rightarrow> coltype" where
  "column_type Number Date_parse rs c =
     (let vs = column_values rs c
      in if vs = [] then TString
         else if fraction (counts_as_number Number) vs \<ge> 8 / 10 then TNumber
         else if fraction (counts_as_date Number Date_parse) vs \<ge> 8 / 10 then TDate
         else TString)"

section \<open>Sort engine (lib.js: sortRows)\<close>

datatype sortdir = Asc | Desc | NoSort

text \<open>
  The subtraction and the negation of JavaScript numbers. The difference of two finite
  values is kept exact: the double-precision difference has the same sign (it may round
  or overflow to an infinity of that sign, and it is zero only for equal operands), and
  the sort reads nothing but the sign.
\<close>

fun js_sub :: "jsnum \<Rightarrow> jsnum \<Rightarrow> jsnum" where
  "js_sub NaN y = NaN"
| "js_sub x NaN = NaN"
| "js_sub PosInfinity PosInfinity = NaN"
| "js_sub NegInfinity NegInfinity = NaN"
| "js_sub PosInfinity y = PosInfinity"
| "js_sub NegInfinity y = NegInfinity"
| "js_sub (Finite a) PosInfinity = NegInfinity"
| "js_sub (Finite a) NegInfinity = PosInfinity"
| "js_sub (Finite a) (Finite b) = Finite (a - b)"

fun js_neg :: "jsnum \<Rightarrow> jsnum" where
  "js_neg NaN = NaN"
| "js_neg PosInfinity = NegInfinity"
| "js_neg NegInfinity = PosInfinity"
| "js_neg (Finite a) = Finite (- a)"

text \<open>\<^verbatim>\<open>isNaN(x) ? -Infinity : x\<close>, for a number and for the result of \<^verbatim>\<open>Date.parse\<close>.\<close>

definition nan_to_neg_infinity :: "jsnum \<Rightarrow> jsnum" where
  "nan_to_neg_infinity x = (if isNaN x then NegInfinity else x)"

definition date_to_number :: "int option \<Rightarrow> jsnum" where
  "date_to_number d = (case d of None \<Rightarrow> NaN | Some t \<Rightarrow> Finite (of_int t))"

text \<open>The comparator handed to \<^verbatim>\<open>sort\<close>, for a column \<open>sortCol \<ge> 0\<close>.\<close>

definition compare_rows ::
  "(jsstring \<Rightarrow> jsnum) \<Rightarrow> (jsstring \<Rightarrow> int option) \<Rightarrow> (jsstring \<Rightarrow> jsstring \<Rightarrow> int)
     \<Rightarrow> nat \<Rightarrow> sortdir \<Rightarrow> coltype \<Rightarrow> row \<Rightarrow> row \<Rightarrow> jsnum" where
  "compare_rows parseFloat Date_parse localeCompare sortCol sortDir type a b =
     (let av = trim (cell_str (field a sortCol));
          bv = trim (cell_str (field b sortCol));
          cmp = (case type of
                   TNumber \<Rightarrow>
                     let an = parseFloat (strip_commas av);
                         bn = parseFloat (strip_commas bv)
                     in js_sub (nan_to_neg_infinity an) (nan_to_neg_infinity bn)
                 | TDate \<Rightarrow>
                     let ad = date_to_number (Date_parse av);
                         bd = date_to_number (Date_parse bv)
                     in js_sub (nan_to_neg_infinity ad) (nan_to_neg_infinity bd)
                 | TString \<Rightarrow> Finite (of_int (localeCompare av bv)))
      in if sortDir = Asc then cmp else js_neg cmp)"

text \<open>
  \<^verbatim>\<open>Array.prototype.sort(comparefn)\<close>. ECMAScript reads the comparator through
  \<^verbatim>\<open>SortCompare\<close>, which turns a \<^verbatim>\<open>NaN\<close> result into \<open>+0\<close>, uses only the sign of the
  result, and requires the sort to be stable; for a consistent comparator this fixes the
  result. The model is the stable insertion sort: an element goes before the first
  element it is not greater than.
\<close>

definition sort_compare :: "('a \<Rightarrow> 'a \<Rightarrow> jsnum) \<Rightarrow> 'a \<Rightarrow> 'a \<Rightarrow> int" where
  "sort_compare comparefn x y =
     (case comparefn x y of
        NaN \<Rightarrow> 0
      | NegInfinity \<Rightarrow> - 1
      | PosInfinity \<Rightarrow> 1
      | Finite v \<Rightarrow> (if v < 0 then - 1 else if v > 0 then 1 else 0))"

fun insert_sorted :: "('a \<Rightarrow> 'a \<Rightarrow> jsnum) \<Rightarrow> 'a \<Rightarrow> 'a list \<Rightarrow> 'a list" where
  "insert_sorted comparefn x [] = [x]"
| "insert_sorted comparefn x (y # ys) =
     (if sort_compare comparefn x y > 0 then y # insert_sorted comparefn x ys
      else x # y # ys)"

definition js_sort :: "('a \<Rightarrow> 'a \<Rightarrow> jsnum) \<Rightarrow> 'a list \<Rightarrow> 'a list" where
  "js_sort comparefn xs = foldr (insert_sorted comparefn) xs []"

definition sortRows ::
  "(jsstring \<Rightarrow> jsnum) \<Rightarrow> (jsstring \<Rightarrow> int option) \<Rightarrow> (jsstring \<Rightarrow> jsstring \<Rightarrow> int)
     \<Rightarrow> row list \<Rightarrow> int \<Rightarrow> sortdir \<Rightarrow> (nat \<rightharpoonup> coltype) option \<Rightarrow> row list" where
  "sortRows parseFloat Date_parse localeCompare rs sortCol sortDir colTypes =
     (if sortCol < 0 \<or> sortDir = NoSort then rs
      else
        let type = (case colTypes of
                      None \<Rightarrow> TString
                    | Some types \<Rightarrow>
                        (case types (nat sortCol) of None \<Rightarrow> TString | Some t \<Rightarrow> t))
        in js_sort (compare_rows parseFloat Date_parse localeCompare (nat sortCol) sortDir type)
             rs)"

text \<open>
  The value the comparator reads in a row of a number column and of a date column.
\<close>

definition number_of_row :: "(jsstring \<Rightarrow> jsnum) \<Rightarrow> nat \<Rightarrow> row \<Rightarrow> jsnum" where
  "number_of_row parseFloat sortCol r =
     parseFloat (strip_commas (trim (cell_str (field r sortCol))))"

definition date_of_row :: "(jsstring \<Rightarrow> int option) \<Rightarrow> nat \<Rightarrow> row \<Rightarrow> int option" where
  "date_of_row Date_parse sortCol r = Date_parse (trim (cell_str (field r sortCol)))"

section \<open>Builtins of the host, for examples\<close>

text \<open>
  The theorems hold for every \<^verbatim>\<open>parseFloat\<close>, \<^verbatim>\<open>Number\<close>, \<^verbatim>\<open>Date.parse\<close> and
  \<^verbatim>\<open>localeCompare\<close>. To evaluate examples, this section models the decimal fragment of
  the first two from the grammar \<^verbatim>\<open>StrDecimalLiteral\<close> of ECMAScript: an optional sign,
  then \<^verbatim>\<open>Infinity\<close> or decimal digits with an optional fraction and exponent. The value
  is the exact decimal value; its rounding to double precision, and hexadecimal, octal
  and binary literals of \<^verbatim>\<open>Number\<close>, are left out.
\<close>

definition is_digit :: "jschar \<Rightarrow> bool" where
  "is_digit c = (0x30 \<le> c \<and> c \<le> 0x39)"

definition digits_value :: "jsstring \<Rightarrow> int" where
  "digits_value ds = foldl (\<lambda>acc d. 10 * acc + (uint d - 48)) 0 ds"

text \<open>An exponent part at the head of the text, if there is one: its value and the rest.\<close>

definition exponent_part :: "jsstring \<Rightarrow> int \<times> jsstring" where
  "exponent_part t =
     (case t of
        [] \<Rightarrow> (0, t)
      | e # t1 \<Rightarrow>
          if e = 0x65 \<or> e = 0x45 then
            (let neg = (t1 \<noteq> [] \<and> hd t1 = 0x2D);
                 t2 = (if t1 \<noteq> [] \<and> (hd t1 = 0x2D \<or> hd t1 = 0x2B) then tl t1 else t1);
                 ds = takeWhile is_digit t2
             in if ds = [] then (0, t)
                else ((if neg then - digits_value ds else digits_value ds),
                      dropWhile is_digit t2))
          else (0, t))"

text \<open>
  The longest prefix of the text that is an unsigned decimal literal: its value and the
  text after it, or \<open>None\<close> when no prefix is one.
\<close>

definition unsigned_decimal :: "jsstring \<Rightarrow> (jsnum \<times> jsstring) option" where
  "unsigned_decimal u =
     (if take 8 u = S ''Infinity'' then Some (PosInfinity, drop 8 u)
      else
        let ip = takeWhile is_digit u;
            r1 = dropWhile is_digit u;
            dot = (r1 \<noteq> [] \<and> hd r1 = 0x2E
                   \<and> (ip \<noteq> [] \<or> (tl r1 \<noteq> [] \<and> is_digit (hd (tl r1)))));
            fp = (if dot then takeWhile is_digit (tl r1) else []);
            r2 = (if dot then dropWhile is_digit (tl r1) else r1)
        in if ip = [] \<and> fp = [] then None
           else
             let m = rat_of_int (digits_value ip)
                     + rat_of_int (digits_value fp) / 10 ^ length fp;
                 e = fst (exponent_part r2)
             in Some (Finite (if e \<ge> 0 then m * 10 ^ nat e else m / 10 ^ nat (- e)),
                      snd (exponent_part r2)))"

definition signed_decimal :: "jsstring \<Rightarrow> (jsnum \<times> jsstring) option" where
  "signed_decimal t =
     (case t of
        [] \<Rightarrow> None
      | c # cs \<Rightarrow>
          if c = 0x2D then
            (case unsigned_decimal cs of None \<Rightarrow> None | Some (v, r) \<Rightarrow> Some (js_neg v, r))
          else if c = 0x2B then unsigned_decimal cs
          else unsigned_decimal t)"

text \<open>
  \<^verbatim>\<open>parseFloat\<close> skips leading white space and reads the longest decimal literal at the
  head of the text, whatever follows it; \<^verbatim>\<open>Number\<close> trims the text, reads the empty text
  as 0, and wants the literal to be the whole text.
\<close>

definition parseFloat_decimal :: "jsstring \<Rightarrow> jsnum" where
  "parseFloat_decimal s =
     (case signed_decimal (dropWhile is_js_space s) of None \<Rightarrow> NaN | Some (v, r) \<Rightarrow> v)"

definition Number_decimal :: "jsstring \<Rightarrow> jsnum" where
  "Number_decimal s =
     (if trim s = [] then Finite 0
      else case signed_decimal (trim s) of
             None \<Rightarrow> NaN
           | Some (v, r) \<Rightarrow> if r = [] then v else NaN)"

text \<open>
  \<^verbatim>\<open>Date.parse\<close> on the date-only form \<^verbatim>\<open>YYYY-MM-DD\<close> of a valid calendar date: the
  milliseconds from 1970-01-01 to the midnight (UTC) that begins the day. Every other
  text is not a date here; hosts accept more formats.
\<close>

definition days_in_month :: "int \<Rightarrow> int \<Rightarrow> int" where
  "days_in_month y m =
     (if m = 2 then (if y mod 4 = 0 \<and> (y mod 100 \<noteq> 0 \<or> y mod 400 = 0) then 29 else 28)
      else if m = 4 \<or> m = 6 \<or> m = 9 \<or> m = 11 then 30 else 31)"

definition days_from_epoch :: "int \<Rightarrow> int \<Rightarrow> int \<Rightarrow> int" where
  "days_from_epoch y m d =
     (let y' = (if m \<le> 2 then y - 1 else y);
          era = y' div 400;
          yoe = y' - era * 400;
          doy = (153 * (if m > 2 then m - 3 else m + 9) + 2) div 5 + d - 1;
          doe = yoe * 365 + yoe div 4 - yoe div 100 + doy
      in era * 146097 + doe - 719468)"

definition Date_parse_iso :: "jsstring \<Rightarrow> int option" where
  "Date_parse_iso s =
     (if length s = 10 \<and> list_all is_digit (take 4 s) \<and> s ! 4 = 0x2D
         \<and> list_all is_digit (take 2 (drop 5 s)) \<and> s ! 7 = 0x2D
         \<and> list_all is_digit (drop 8 s)
      then
        (let y = digits_value (take 4 s);
             m = digits_value (take 2 (drop 5 s));
             d = digits_value (drop 8 s)
         in if 1 \<le> m \<and> m \<le> 12 \<and> 1 \<le> d \<and> d \<le> days_in_month y m
            then Some (days_from_epoch y m d * 86400000) else None)
      else None)"

text \<open>
  A comparison of strings by code units, in place of the locale-aware
  \<^verbatim>\<open>localeCompare\<close> of the host: it orders ASCII letters of one case as the host does.
\<close>

fun compare_code_units :: "jsstring \<Rightarrow> jsstring \<Rightarrow> int" where
  "compare_code_units [] [] = 0"
| "compare_code_units [] (y # ys) = - 1"
| "compare_code_units (x # xs) [] = 1"
| "compare_code_units (x # xs) (y # ys) =
     (if x < y then - 1 else if y < x then 1 else compare_code_units xs ys)"

section \<open>Notions of the statements and proofs\<close>

text \<open>The body of a quoted field: every quote doubled.\<close>

definition quote_body :: "jsstring \<Rightarrow> jsstring" where
  "quote_body s = concat (map (\<lambda>c. if c = DQUOTE then [DQUOTE, DQUOTE] else [c]) s)"

definition needs_quotes :: "jsstring \<Rightarrow> bool" where
  "needs_quotes s = (COMMA \<in> set s \<or> DQUOTE \<in> set s \<or> LF \<in> set s \<or> CR \<in> set s)"

text \<open>
  A field survives the export when the exporter quotes it or the parser's trimming leaves
  it alone.
\<close>

definition survives :: "jsstring \<Rightarrow> bool" where
  "survives s = (needs_quotes s \<or> trim s = s)"

text \<open>One exported line: the escaped fields joined with commas.\<close>

definition csv_line :: "jsstring list \<Rightarrow> jsstring" where
  "csv_line fs = join [COMMA] (map (\<lambda>f. escapeCSVField (Some f)) fs)"

text \<open>
  A row the parser keeps and reads back: it has a field, its fields survive, and it is not
  the single empty field.
\<close>

definition row_survives :: "jsstring list \<Rightarrow> bool" where
  "row_survives fs = (fs \<noteq> [] \<and> fs \<noteq> [[]] \<and> (\<forall>f \<in> set fs. survives f))"

text \<open>The order of the numbers other than \<^verbatim>\<open>NaN\<close>.\<close>

fun num_gt :: "jsnum \<Rightarrow> jsnum \<Rightarrow> bool" where
  "num_gt (Finite a) (Finite b) = (a > b)"
| "num_gt (Finite a) NegInfinity = True"
| "num_gt PosInfinity (Finite b) = True"
| "num_gt PosInfinity NegInfinity = True"
| "num_gt x y = False"

text \<open>
  The keys the comparator subtracts in a number and in a date column: the value of the
  row, with negative infinity for \<^verbatim>\<open>NaN\<close>.
\<close>

definition number_key :: "(jsstring \<Rightarrow> jsnum) \<Rightarrow> nat \<Rightarrow> row \<Rightarrow> jsnum" where
  "number_key parseFloat c r = nan_to_neg_infinity (number_of_row parseFloat c r)"

definition date_key :: "(jsstring \<Rightarrow> int option) \<Rightarrow> nat \<Rightarrow> row \<Rightarrow> jsnum" where
  "date_key Date_parse c r = nan_to_neg_infinity (date_to_number (date_of_row Date_parse c r))"

text \<open>
  The wording of the specification for the text the delimiter is sniffed from. The text
  without its byte-order mark is the text without a leading U+FEFF. A line break is a LF,
  or a CR directly followed by a LF (the line endings of the input, \<^verbatim>\<open>\n\<close> and \<^verbatim>\<open>\r\n\<close>); a CR
  that no LF follows is not one. \<open>line\<close> is the first line of \<open>t\<close> when \<open>t\<close> is \<open>line\<close>
  followed by nothing or by a line break, \<open>line\<close> holds no LF, and the break is taken where
  it begins: \<open>line\<close> does not end with the CR of a CR LF.
\<close>

definition without_bom :: "jsstring \<Rightarrow> jsstring" where
  "without_bom t = (if t \<noteq> [] \<and> hd t = BOM then tl t else t)"

definition is_first_line :: "jsstring \<Rightarrow> jsstring \<Rightarrow> bool" where
  "is_first_line t line =
     (let rest = drop (length line) t
      in take (length line) t = line \<and> LF \<notin> set line
         \<and> (rest = [] \<or> take 2 rest = [CR, LF]
              \<or> (hd rest = LF \<and> (line = [] \<or> last line \<noteq> CR))))"

section \<open>Paginator: proofs\<close>

lemma half_open_slice_drop_take:
  "half_open_slice xs lo hi = drop (nat lo) (take (nat hi) xs)"
proof (induction xs rule: rev_induct)
  case Nil
  then show ?case by (simp add: half_open_slice_def)
next
  case (snoc x xs)
  have m: "map (\<lambda>i. (xs @ [x]) ! i) (filter (\<lambda>i. lo \<le> int i \<and> int i < hi) [0..<length xs])
         = map (\<lambda>i. xs ! i) (filter (\<lambda>i. lo \<le> int i \<and> int i < hi) [0..<length xs])"
    by (rule map_cong) (auto simp: nth_append)
  show ?case
    using snoc.IH m unfolding half_open_slice_def
    by (auto simp: nat_le_iff nat_less_iff not_le not_less)
qed

lemma js_slice_nonneg:
  assumes "0 \<le> start" "start \<le> stop"
  shows "js_slice xs start stop = take (nat (stop - start)) (drop (nat start) xs)"
proof (cases "start \<le> int (length xs)")
  case True
  have "take (nat (min stop (int (length xs)) - start)) (drop (nat start) xs)
      = take (nat (stop - start)) (drop (nat start) xs)"
  proof (cases "stop \<le> int (length xs)")
    case True then show ?thesis by (simp add: min_def)
  next
    case False
    then show ?thesis using assms True by (simp add: min_def)
  qed
  then show ?thesis using assms True by (simp add: js_slice_def Let_def min_def)
next
  case False
  then show ?thesis using assms by (simp add: js_slice_def Let_def min_def)
qed

lemma getPageSlice_pos:
  "1 \<le> page \<Longrightarrow> 0 < pageSize \<Longrightarrow>
   getPageSlice rows page pageSize = take (nat pageSize) (drop (nat ((page - 1) * pageSize)) rows)"
  by (simp add: getPageSlice_def Let_def js_slice_nonneg)

lemma getPageSlice_page0: "0 < pageSize \<Longrightarrow> getPageSlice rows 0 pageSize = []"
  by (simp add: getPageSlice_def Let_def js_slice_def)

lemma getPageSlice_half_open:
  assumes "0 \<le> page" "0 < pageSize"
  shows "getPageSlice rows page pageSize
       = half_open_slice rows ((page - 1) * pageSize) (page * pageSize)"
proof (cases "page = 0")
  case True
  then show ?thesis using assms by (simp add: getPageSlice_page0 half_open_slice_drop_take)
next
  case False
  then have p: "1 \<le> page" using assms by simp
  have "nat (page * pageSize) - nat ((page - 1) * pageSize) = nat pageSize"
    using p assms(2) by (simp add: algebra_simps nat_diff_distrib' nat_mult_distrib)
  then show ?thesis using p assms by (simp add: getPageSlice_pos half_open_slice_drop_take drop_take)
qed

lemma pages_concat:
  assumes "0 < pageSize"
  shows "concat (map (\<lambda>p. getPageSlice rows (int p) pageSize) [1..<Suc k])
       = take (k * nat pageSize) rows"
proof (induction k)
  case 0
  then show ?case by simp
next
  case (Suc k)
  have g: "getPageSlice rows (int (Suc k)) pageSize
         = take (nat pageSize) (drop (k * nat pageSize) rows)"
    using assms by (simp add: getPageSlice_pos nat_mult_distrib)
  have u: "[1..<Suc (Suc k)] = [1..<Suc k] @ [Suc k]" by simp
  have "concat (map (\<lambda>p. getPageSlice rows (int p) pageSize) [1..<Suc (Suc k)])
      = take (k * nat pageSize) rows @ take (nat pageSize) (drop (k * nat pageSize) rows)"
    unfolding u using Suc g by simp
  also have "\<dots> = take (k * nat pageSize + nat pageSize) rows"
    by (simp add: take_add)
  finally show ?case by (simp add: add.commute)
qed

lemma upto_one_int: "[1..int k] = map int [1..<Suc k]"
proof (induction k)
  case 0
  then show ?case by simp
next
  case (Suc k)
  have "[1..int (Suc k)] = [1..int k] @ [int k + 1]"
    using upto_rec2 [of 1 "int k + 1"] by (simp add: add.commute)
  then show ?case using Suc by simp
qed

lemma calcTotalPages_div:
  "pageSize \<noteq> 0 \<Longrightarrow>
   calcTotalPages filteredCount pageSize = max 1 (- ((- filteredCount) div pageSize))"
  by (simp add: calcTotalPages_def ceiling_divide_eq_div)

lemma calcTotalPages_covers: assumes "0 < pageSize" shows "int n \<le> calcTotalPages (int n) pageSize * pageSize"
proof -
  have "(- int n) div pageSize * pageSize \<le> - int n"
    using assms by (metis mult.commute pos_mod_sign mult_div_mod_eq add_increasing2 order_refl)
  then have a: "int n \<le> (- ((- int n) div pageSize)) * pageSize" by simp
  have ne: "pageSize \<noteq> 0" using assms by simp
  have "(- ((- int n) div pageSize)) * pageSize \<le> calcTotalPages (int n) pageSize * pageSize"
    unfolding calcTotalPages_div [OF ne]
    by (rule mult_right_mono) (use assms in auto)
  with a show ?thesis by linarith
qed

lemma adj_Cons:
  "adjacent_ellipsis (x # xs) =
     ((x = Ellipsis \<and> xs \<noteq> [] \<and> hd xs = Ellipsis) \<or> adjacent_ellipsis xs)"
proof (cases x)
  case (Page n)
  then show ?thesis by simp
next
  case Ellipsis
  then show ?thesis
  proof (cases xs)
    case Nil
    then show ?thesis using Ellipsis by simp
  next
    case (Cons y ys)
    then show ?thesis using Ellipsis by (cases y) auto
  qed
qed

lemma adj_snoc:
  "adjacent_ellipsis (xs @ [y]) =
     (adjacent_ellipsis xs \<or> (xs \<noteq> [] \<and> last xs = Ellipsis \<and> y = Ellipsis))"
proof (induction xs)
  case Nil
  then show ?case by simp
next
  case (Cons x xs)
  then show ?case by (cases xs) (auto simp: adj_Cons)
qed

lemma adj_addEllipsis: "adjacent_ellipsis (addEllipsis xs) = adjacent_ellipsis xs"
  by (simp add: addEllipsis_def adj_snoc)

lemma adj_append_pages:
  "adjacent_ellipsis (xs @ map Page ps) = adjacent_ellipsis xs"
proof (induction ps rule: rev_induct)
  case Nil
  then show ?case by simp
next
  case (snoc p ps)
  have "adjacent_ellipsis ((xs @ map Page ps) @ [Page p]) = adjacent_ellipsis (xs @ map Page ps)"
    by (simp only: adj_snoc) simp
  then show ?case using snoc by simp
qed

lemma buildPageList_no_adjacent: "\<not> adjacent_ellipsis (buildPageList cur tot)"
proof (cases "tot \<le> 7")
  case True
  then show ?thesis using adj_append_pages [of "[]" "[1..tot]"] by (simp add: buildPageList_def)
next
  case False
  then show ?thesis
    by (simp add: buildPageList_def Let_def adj_snoc adj_addEllipsis adj_append_pages)
qed

lemma buildPageList_hd: "1 \<le> tot \<Longrightarrow> hd (buildPageList cur tot) = Page 1"
  by (simp add: buildPageList_def Let_def addEllipsis_def upto.simps)

lemma buildPageList_last: "1 \<le> tot \<Longrightarrow> last (buildPageList cur tot) = Page tot"
  by (simp add: buildPageList_def Let_def last_map upto_rec2)


section \<open>Filter engine: proofs\<close>

lemma take_is_prefix: "(take (length t) s = t) = (\<exists>after. s = t @ after)"
proof
  assume "take (length t) s = t"
  then have "s = t @ drop (length t) s" by (metis append_take_drop_id)
  then show "\<exists>after. s = t @ after" ..
next
  assume "\<exists>after. s = t @ after"
  then show "take (length t) s = t" by auto
qed

lemma str_includes_iff: "str_includes s t = (\<exists>before after. s = before @ t @ after)"
proof (induction s)
  case Nil
  then show ?case by auto
next
  case (Cons c cs)
  show ?case
  proof
    assume "str_includes (c # cs) t"
    then consider "take (length t) (c # cs) = t" | "str_includes cs t" by auto
    then show "\<exists>before after. c # cs = before @ t @ after"
    proof cases
      case 1
      then obtain after where "c # cs = t @ after" using take_is_prefix by blast
      then have "c # cs = [] @ t @ after" by simp
      then show ?thesis by blast
    next
      case 2
      then obtain before after where "cs = before @ t @ after" using Cons by blast
      then have "c # cs = (c # before) @ t @ after" by simp
      then show ?thesis by blast
    qed
  next
    assume "\<exists>before after. c # cs = before @ t @ after"
    then obtain before after where e: "c # cs = before @ t @ after" by blast
    show "str_includes (c # cs) t"
    proof (cases before)
      case Nil
      then have "take (length t) (c # cs) = t" using e take_is_prefix [of t "c # cs"] by auto
      then show ?thesis by simp
    next
      case (Cons b bs)
      then have "cs = bs @ t @ after" using e by simp
      then have "str_includes cs t" using Cons.IH by blast
      then show ?thesis by simp
    qed
  qed
qed

lemma includes_ci:
  "str_includes (lc fld) (lc entry) = ci_substring lc entry fld"
  by (simp add: str_includes_iff ci_substring_def)

lemma col_loop_iff:
  "col_loop lc colLowers r cs =
     (\<forall>c \<in> set cs. c < length colLowers \<longrightarrow> colLowers ! c \<noteq> [] \<longrightarrow>
         str_includes (lc (cell_str (field r c))) (colLowers ! c))"
  by (induction cs) (auto simp: Let_def)

section \<open>Type detector: proofs\<close>

lemma js_slice_prefix: "0 \<le> n \<Longrightarrow> js_slice xs 0 n = take (nat n) xs"
  by (simp add: js_slice_nonneg)

lemma count_loop_counts:
  "count_loop Number Date_parse c sample (numOk, dateOk, tot) =
     (numOk + length (filter (counts_as_number Number)
                 (filter (\<lambda>v. v \<noteq> []) (map (\<lambda>r. trim (cell_str (field r c))) sample))),
      dateOk + length (filter (counts_as_date Number Date_parse)
                 (filter (\<lambda>v. v \<noteq> []) (map (\<lambda>r. trim (cell_str (field r c))) sample))),
      tot + length (filter (\<lambda>v. v \<noteq> []) (map (\<lambda>r. trim (cell_str (field r c))) sample)))"
proof (induction sample arbitrary: numOk dateOk tot)
  case Nil
  then show ?case by simp
next
  case (Cons r sample)
  show ?case
    by (simp add: Cons.IH Let_def counts_as_number_def counts_as_date_def isNaN_def)
qed

lemma fold_upd_lookup:
  "fold (\<lambda>c m. m(c \<mapsto> f c)) cs m0 k = (if k \<in> set cs then Some (f k) else m0 k)"
  by (induction cs arbitrary: m0) auto

lemma decide_type_column:
  "decide_type (count_loop Number Date_parse c (take 500 rs) (0, 0, 0))
     = column_type Number Date_parse rs c"
proof -
  define vs where "vs = column_values rs c"
  have cl: "count_loop Number Date_parse c (take 500 rs) (0, 0, 0)
      = (length (filter (counts_as_number Number) vs),
         length (filter (counts_as_date Number Date_parse) vs), length vs)"
    unfolding vs_def column_values_def count_loop_counts by (simp only: add_0)
  show ?thesis
    unfolding cl decide_type_def column_type_def Let_def fraction_def vs_def [symmetric]
    by simp
qed

lemma detectColTypes_lookup:
  "detectColTypes Number Date_parse hdrs rs c
     = (if c < length hdrs then Some (column_type Number Date_parse rs c) else None)"
  by (simp add: detectColTypes_def Let_def js_slice_prefix fold_upd_lookup decide_type_column)

section \<open>Sort engine: proofs\<close>

lemma mset_insert_sorted: "mset (insert_sorted comparefn x ys) = add_mset x (mset ys)"
  by (induction ys) auto

lemma mset_js_sort: "mset (js_sort comparefn xs) = mset xs"
  unfolding js_sort_def by (induction xs) (auto simp: mset_insert_sorted)

lemma set_insert_sorted: "set (insert_sorted comparefn x ys) = insert x (set ys)"
  by (induction ys) auto

lemma length_js_sort: "length (js_sort comparefn xs) = length xs"
  using mset_js_sort [of comparefn xs] by (metis size_mset)

text \<open>
  When ``greater'' (a positive \<^verbatim>\<open>SortCompare\<close>) is asymmetric and its complement is
  transitive, no element of the sorted list is greater than a later one.
\<close>

lemma insert_sorted_ordered:
  assumes asym: "\<And>x y. sort_compare comparefn x y > 0 \<Longrightarrow> \<not> sort_compare comparefn y x > 0"
    and trans: "\<And>x y z. \<not> sort_compare comparefn x y > 0 \<Longrightarrow> \<not> sort_compare comparefn y z > 0
                  \<Longrightarrow> \<not> sort_compare comparefn x z > 0"
    and sorted: "sorted_wrt (\<lambda>a b. \<not> sort_compare comparefn a b > 0) ys"
  shows "sorted_wrt (\<lambda>a b. \<not> sort_compare comparefn a b > 0) (insert_sorted comparefn x ys)"
  using sorted
proof (induction ys)
  case Nil
  then show ?case by simp
next
  case (Cons y ys)
  show ?case
  proof (cases "sort_compare comparefn x y > 0")
    case True
    have "\<not> sort_compare comparefn y x > 0" using asym [OF True] .
    then show ?thesis using True Cons by (auto simp: set_insert_sorted)
  next
    case False
    have "\<not> sort_compare comparefn x z > 0" if "z \<in> set ys" for z
      using trans [OF False, of z] Cons.prems that by auto
    then show ?thesis using False Cons.prems by auto
  qed
qed

lemma js_sort_ordered:
  assumes asym: "\<And>x y. sort_compare comparefn x y > 0 \<Longrightarrow> \<not> sort_compare comparefn y x > 0"
    and trans: "\<And>x y z. \<not> sort_compare comparefn x y > 0 \<Longrightarrow> \<not> sort_compare comparefn y z > 0
                  \<Longrightarrow> \<not> sort_compare comparefn x z > 0"
  shows "sorted_wrt (\<lambda>a b. \<not> sort_compare comparefn a b > 0) (js_sort comparefn xs)"
  unfolding js_sort_def
proof (induction xs)
  case Nil
  then show ?case by simp
next
  case (Cons x xs)
  show ?case using insert_sorted_ordered [OF asym trans Cons] by simp
qed

lemma num_gt_asym: "num_gt x y \<Longrightarrow> \<not> num_gt y x"
  by (cases x; cases y) auto

lemma num_gt_negtrans: "\<not> num_gt x y \<Longrightarrow> \<not> num_gt y z \<Longrightarrow> x \<noteq> NaN \<Longrightarrow> y \<noteq> NaN \<Longrightarrow> z \<noteq> NaN
    \<Longrightarrow> \<not> num_gt x z"
  by (cases x; cases y; cases z) auto

lemma sort_compare_sub:
  "k p \<noteq> NaN \<Longrightarrow> k q \<noteq> NaN \<Longrightarrow>
   (sort_compare (\<lambda>a b. js_sub (k a) (k b)) p q > 0) = num_gt (k p) (k q)"
  by (cases "k p"; cases "k q") (auto simp: sort_compare_def)

lemma nan_to_neg_infinity_not_nan: "nan_to_neg_infinity x \<noteq> NaN"
  by (simp add: nan_to_neg_infinity_def isNaN_def)

lemma js_sort_key_ordered:
  assumes "\<And>a. k a \<noteq> NaN"
  shows "sorted_wrt (\<lambda>a b. \<not> num_gt (k a) (k b)) (js_sort (\<lambda>a b. js_sub (k a) (k b)) xs)"
proof -
  have eq: "(sort_compare (\<lambda>a b. js_sub (k a) (k b)) p q > 0) = num_gt (k p) (k q)" for p q
    using sort_compare_sub [of k p q] assms by simp
  have "sorted_wrt (\<lambda>a b. \<not> sort_compare (\<lambda>a b. js_sub (k a) (k b)) a b > 0)
          (js_sort (\<lambda>a b. js_sub (k a) (k b)) xs)"
  proof (rule js_sort_ordered)
    fix x y
    assume "sort_compare (\<lambda>a b. js_sub (k a) (k b)) x y > 0"
    then show "\<not> sort_compare (\<lambda>a b. js_sub (k a) (k b)) y x > 0"
      unfolding eq by (rule num_gt_asym)
  next
    fix x y z
    assume "\<not> sort_compare (\<lambda>a b. js_sub (k a) (k b)) x y > 0"
      "\<not> sort_compare (\<lambda>a b. js_sub (k a) (k b)) y z > 0"
    then show "\<not> sort_compare (\<lambda>a b. js_sub (k a) (k b)) x z > 0"
      unfolding eq using num_gt_negtrans assms by blast
  qed
  then show ?thesis unfolding eq .
qed

lemma sorted_wrt_nth:
  "sorted_wrt P xs \<Longrightarrow> i < j \<Longrightarrow> j < length xs \<Longrightarrow> P (xs ! i) (xs ! j)"
  by (simp add: sorted_wrt_iff_nth_less)

lemma not_gt_neg_infinity: "\<not> num_gt x NegInfinity \<Longrightarrow> x = NaN \<or> x = NegInfinity"
  by (cases x) auto

lemma compare_rows_number_asc:
  "compare_rows parseFloat Date_parse localeCompare c Asc TNumber
     = (\<lambda>a b. js_sub (number_key parseFloat c a) (number_key parseFloat c b))"
  by (intro ext) (simp add: compare_rows_def Let_def number_key_def number_of_row_def)

lemma compare_rows_date_asc:
  "compare_rows parseFloat Date_parse localeCompare c Asc TDate
     = (\<lambda>a b. js_sub (date_key Date_parse c a) (date_key Date_parse c b))"
  by (intro ext) (simp add: compare_rows_def Let_def date_key_def date_of_row_def)

lemma sortRows_number_asc:
  "0 \<le> sortCol \<Longrightarrow> types (nat sortCol) = Some TNumber \<Longrightarrow>
   sortRows parseFloat Date_parse localeCompare rs sortCol Asc (Some types)
     = js_sort (\<lambda>a b. js_sub (number_key parseFloat (nat sortCol) a)
                            (number_key parseFloat (nat sortCol) b)) rs"
  by (simp add: sortRows_def compare_rows_number_asc)

lemma sortRows_date_asc:
  "0 \<le> sortCol \<Longrightarrow> types (nat sortCol) = Some TDate \<Longrightarrow>
   sortRows parseFloat Date_parse localeCompare rs sortCol Asc (Some types)
     = js_sort (\<lambda>a b. js_sub (date_key Date_parse (nat sortCol) a)
                            (date_key Date_parse (nat sortCol) b)) rs"
  by (simp add: sortRows_def compare_rows_date_asc)

lemma number_unparseable_before:
  assumes "0 \<le> sortCol" "types (nat sortCol) = Some TNumber"
    and "i < j" "j < length rs"
    and "number_of_row parseFloat (nat sortCol)
           (sortRows parseFloat Date_parse localeCompare rs sortCol Asc (Some types) ! j) = NaN"
  shows "number_of_row parseFloat (nat sortCol)
           (sortRows parseFloat Date_parse localeCompare rs sortCol Asc (Some types) ! i) = NaN
       \<or> number_of_row parseFloat (nat sortCol)
           (sortRows parseFloat Date_parse localeCompare rs sortCol Asc (Some types) ! i)
          = NegInfinity"
proof -
  let ?k = "number_key parseFloat (nat sortCol)"
  let ?out = "js_sort (\<lambda>a b. js_sub (?k a) (?k b)) rs"
  have out: "sortRows parseFloat Date_parse localeCompare rs sortCol Asc (Some types) = ?out"
    using assms(1,2) by (rule sortRows_number_asc)
  have "sorted_wrt (\<lambda>a b. \<not> num_gt (?k a) (?k b)) ?out"
    by (rule js_sort_key_ordered) (simp add: number_key_def nan_to_neg_infinity_not_nan)
  then have "\<not> num_gt (?k (?out ! i)) (?k (?out ! j))"
    using assms(3,4) by (intro sorted_wrt_nth [where P = "\<lambda>a b. \<not> num_gt (?k a) (?k b)"])
      (simp_all add: length_js_sort)
  moreover have "?k (?out ! j) = NegInfinity"
    using assms(5) unfolding out by (simp add: number_key_def nan_to_neg_infinity_def isNaN_def)
  ultimately have "?k (?out ! i) = NegInfinity"
    using not_gt_neg_infinity [of "?k (?out ! i)"]
    by (simp add: number_key_def nan_to_neg_infinity_not_nan)
  then show ?thesis unfolding out
    by (simp add: number_key_def nan_to_neg_infinity_def isNaN_def split: if_splits)
qed

lemma date_unparseable_before:
  assumes "0 \<le> sortCol" "types (nat sortCol) = Some TDate"
    and "i < j" "j < length rs"
    and "date_of_row Date_parse (nat sortCol)
           (sortRows parseFloat Date_parse localeCompare rs sortCol Asc (Some types) ! j) = None"
  shows "date_of_row Date_parse (nat sortCol)
           (sortRows parseFloat Date_parse localeCompare rs sortCol Asc (Some types) ! i) = None"
proof -
  let ?k = "date_key Date_parse (nat sortCol)"
  let ?out = "js_sort (\<lambda>a b. js_sub (?k a) (?k b)) rs"
  have out: "sortRows parseFloat Date_parse localeCompare rs sortCol Asc (Some types) = ?out"
    using assms(1,2) by (rule sortRows_date_asc)
  have "sorted_wrt (\<lambda>a b. \<not> num_gt (?k a) (?k b)) ?out"
    by (rule js_sort_key_ordered) (simp add: date_key_def nan_to_neg_infinity_not_nan)
  then have "\<not> num_gt (?k (?out ! i)) (?k (?out ! j))"
    using assms(3,4) by (intro sorted_wrt_nth [where P = "\<lambda>a b. \<not> num_gt (?k a) (?k b)"])
      (simp_all add: length_js_sort)
  moreover have "?k (?out ! j) = NegInfinity"
    using assms(5) unfolding out
    by (simp add: date_key_def nan_to_neg_infinity_def isNaN_def date_to_number_def)
  ultimately have "?k (?out ! i) = NegInfinity"
    using not_gt_neg_infinity [of "?k (?out ! i)"]
    by (simp add: date_key_def nan_to_neg_infinity_not_nan)
  then show ?thesis unfolding out
    by (simp add: date_key_def nan_to_neg_infinity_def isNaN_def date_to_number_def
        split: if_splits option.splits)
qed

lemma unparseable_numbers_equal:
  assumes "number_of_row parseFloat c a = NaN" "number_of_row parseFloat c b = NaN"
  shows "compare_rows parseFloat Date_parse localeCompare c dir TNumber a b = NaN"
    and "sort_compare (compare_rows parseFloat Date_parse localeCompare c dir TNumber) a b = 0"
  using assms
  by (simp_all add: compare_rows_def Let_def number_of_row_def nan_to_neg_infinity_def
      isNaN_def sort_compare_def)

lemma unparseable_dates_equal:
  assumes "date_of_row Date_parse c a = None" "date_of_row Date_parse c b = None"
  shows "compare_rows parseFloat Date_parse localeCompare c dir TDate a b = NaN"
    and "sort_compare (compare_rows parseFloat Date_parse localeCompare c dir TDate) a b = 0"
  using assms
  by (simp_all add: compare_rows_def Let_def date_of_row_def nan_to_neg_infinity_def
      isNaN_def sort_compare_def date_to_number_def)

section \<open>Parser: proofs about the sniffer\<close>


lemma occurrences_count_list: "occurrences d line = count_list line d"
  by (induction line) (simp_all add: occurrences_def)

text \<open>A text has one first line, and \<open>firstLine\<close> computes it.\<close>

lemma first_line_after:
  assumes "LF \<notin> set line"
    and "rest = [] \<or> take 2 rest = [CR, LF] \<or> (hd rest = LF \<and> (line = [] \<or> last line \<noteq> CR))"
  shows "firstLine (line @ rest) = line"
  using assms
proof (induction line)
  case Nil
  show ?case
  proof (cases rest)
    case Nil
    then show ?thesis by simp
  next
    case (Cons x xs)
    then show ?thesis using Nil.prems(2) by (cases xs) auto
  qed
next
  case (Cons c l)
  have c: "c \<noteq> LF" and l: "LF \<notin> set l" using Cons.prems(1) by auto
  have no_break: "\<not> (c = CR \<and> l @ rest \<noteq> [] \<and> hd (l @ rest) = LF)"
  proof
    assume a: "c = CR \<and> l @ rest \<noteq> [] \<and> hd (l @ rest) = LF"
    show False
    proof (cases l)
      case Nil
      then have "rest \<noteq> []" "hd rest = LF" using a by auto
      then show ?thesis using Cons.prems(2) Nil a by (cases rest) auto
    next
      case (Cons y ys)
      then show ?thesis using a l by auto
    qed
  qed
  have tail: "rest = [] \<or> take 2 rest = [CR, LF] \<or> (hd rest = LF \<and> (l = [] \<or> last l \<noteq> CR))"
    using Cons.prems(2) by (cases "l = []") auto
  have "firstLine (c # (l @ rest)) = c # firstLine (l @ rest)"
    using c no_break by auto
  then show ?case using Cons.IH [OF l tail] by simp
qed

lemma is_first_line_firstLine:
  assumes "is_first_line t line"
  shows "firstLine t = line"
proof -
  let ?rest = "drop (length line) t"
  have t: "t = line @ ?rest"
    using assms by (metis append_take_drop_id is_first_line_def)
  have "firstLine (line @ ?rest) = line"
    by (rule first_line_after) (use assms in \<open>simp_all add: is_first_line_def Let_def\<close>)
  then show ?thesis using t by simp
qed





lemma detect_delim_comma_iff:
  "(detect_delim t = COMMA) =
     (occurrences SEMICOLON (firstLine t) \<le> occurrences COMMA (firstLine t)
      \<and> occurrences TAB (firstLine t) \<le> occurrences COMMA (firstLine t)
      \<and> occurrences PIPE (firstLine t) \<le> occurrences COMMA (firstLine t))"
  by (auto simp: detect_delim_def delims_def Let_def)

section \<open>Round trip: proofs\<close>

text \<open>How \<open>parse_row\<close> goes on after a quoted and after an unquoted field.\<close>

lemma parse_row_quoted:
  assumes "quoted_field [] cs = (fld, rest)"
  shows "parse_row d r (DQUOTE # cs) =
     (case rest of
        [] \<Rightarrow> (r @ [fld], [])
      | x # xs \<Rightarrow>
          if x = d then parse_row d (r @ [fld]) xs
          else if x = CR then (r @ [fld], skip_lf xs)
          else if x = LF then (r @ [fld], xs)
          else parse_row d (r @ [fld]) rest)"
  using assms by (simp add: Let_def)

lemma parse_row_unquoted:
  assumes "c \<noteq> DQUOTE"
    and "takeWhile (\<lambda>x. x \<noteq> d \<and> x \<noteq> CR \<and> x \<noteq> LF) (c # cs) = fld"
    and "dropWhile (\<lambda>x. x \<noteq> d \<and> x \<noteq> CR \<and> x \<noteq> LF) (c # cs) = rest"
  shows "parse_row d r (c # cs) =
     (case rest of
        [] \<Rightarrow> (r @ [trim fld], [])
      | x # xs \<Rightarrow>
          if x = d then parse_row d (r @ [trim fld]) xs
          else if x = CR then (r @ [trim fld], skip_lf xs)
          else if x = LF then (r @ [trim fld], xs)
          else (r @ [trim fld], rest))"
  using assms by (simp add: Let_def del: takeWhile.simps dropWhile.simps)

declare parse_row.simps [simp del]

declare parse_rows.simps [simp del]

lemma escapeCSVField_Some:
  "escapeCSVField (Some s) = (if needs_quotes s then DQUOTE # quote_body s @ [DQUOTE] else s)"
  by (simp add: escapeCSVField_def cell_str_def needs_quotes_def quote_body_def Let_def)

lemma quoted_field_body:
  assumes "rest = [] \<or> hd rest \<noteq> DQUOTE"
  shows "quoted_field acc (quote_body s @ DQUOTE # rest) = (acc @ s, rest)"
proof (induction s arbitrary: acc)
  case Nil
  show ?case using assms by (cases rest) (auto simp: quote_body_def)
next
  case (Cons c s)
  show ?case
  proof (cases "c = DQUOTE")
    case True
    have "quote_body (DQUOTE # s) = DQUOTE # DQUOTE # quote_body s"
      by (simp add: quote_body_def)
    then show ?thesis using True Cons [of "acc @ [DQUOTE]"] by simp
  next
    case False
    then have "quote_body (c # s) = c # quote_body s"
      by (simp add: quote_body_def)
    then show ?thesis using False Cons [of "acc @ [c]"] by simp
  qed
qed
lemma unquoted_run:
  assumes "\<forall>x \<in> set f. x \<noteq> COMMA \<and> x \<noteq> CR \<and> x \<noteq> LF"
    and "rest = [] \<or> hd rest = COMMA \<or> hd rest = CR"
  shows "takeWhile (\<lambda>x. x \<noteq> COMMA \<and> x \<noteq> CR \<and> x \<noteq> LF) (f @ rest) = f"
    and "dropWhile (\<lambda>x. x \<noteq> COMMA \<and> x \<noteq> CR \<and> x \<noteq> LF) (f @ rest) = rest"
proof -
  have t: "takeWhile (\<lambda>x. x \<noteq> COMMA \<and> x \<noteq> CR \<and> x \<noteq> LF) rest = []"
    using assms(2) by (cases rest) auto
  have d: "dropWhile (\<lambda>x. x \<noteq> COMMA \<and> x \<noteq> CR \<and> x \<noteq> LF) rest = rest"
    using assms(2) by (cases rest) auto
  show "takeWhile (\<lambda>x. x \<noteq> COMMA \<and> x \<noteq> CR \<and> x \<noteq> LF) (f @ rest) = f"
    using assms(1) t by (simp add: takeWhile_append2)
  show "dropWhile (\<lambda>x. x \<noteq> COMMA \<and> x \<noteq> CR \<and> x \<noteq> LF) (f @ rest) = rest"
    using assms(1) d by (simp add: dropWhile_append2)
qed

lemma parse_row_field:
  assumes s: "survives f"
    and r: "rest = [] \<or> hd rest = COMMA \<or> hd rest = CR"
    and ne: "f \<noteq> [] \<or> rest \<noteq> []"
  shows "parse_row COMMA r (escapeCSVField (Some f) @ rest) =
     (case rest of
        [] \<Rightarrow> (r @ [f], [])
      | x # xs \<Rightarrow>
          if x = COMMA then parse_row COMMA (r @ [f]) xs else (r @ [f], skip_lf xs))"
proof (cases "needs_quotes f")
  case True
  have q: "quoted_field [] (quote_body f @ DQUOTE # rest) = (f, rest)"
    using quoted_field_body [of rest "[]" f] r by auto
  have "parse_row COMMA r (DQUOTE # quote_body f @ DQUOTE # rest) =
     (case rest of
        [] \<Rightarrow> (r @ [f], [])
      | x # xs \<Rightarrow>
          if x = COMMA then parse_row COMMA (r @ [f]) xs else (r @ [f], skip_lf xs))"
    unfolding parse_row_quoted [OF q] using r by (cases rest) auto
  then show ?thesis using True by (simp add: escapeCSVField_Some)
next
  case False
  then have tr: "trim f = f" using s by (simp add: survives_def)
  have plain: "\<forall>x \<in> set f. x \<noteq> COMMA \<and> x \<noteq> CR \<and> x \<noteq> LF"
    using False by (auto simp: needs_quotes_def)
  have noq: "DQUOTE \<notin> set f" using False by (simp add: needs_quotes_def)
  obtain c cs where cc: "f @ rest = c # cs" using ne by (cases "f @ rest") auto
  have cq: "c \<noteq> DQUOTE"
  proof (cases f)
    case Nil
    then show ?thesis using cc r by (cases rest) auto
  next
    case (Cons a f')
    then show ?thesis using cc noq by auto
  qed
  have "parse_row COMMA r (c # cs) =
     (case rest of
        [] \<Rightarrow> (r @ [trim f], [])
      | x # xs \<Rightarrow>
          if x = COMMA then parse_row COMMA (r @ [trim f]) xs
          else if x = CR then (r @ [trim f], skip_lf xs)
          else if x = LF then (r @ [trim f], xs)
          else (r @ [trim f], rest))"
    by (rule parse_row_unquoted [OF cq])
       (simp_all only: cc [symmetric] unquoted_run [OF plain r])
  then have "parse_row COMMA r (f @ rest) =
     (case rest of
        [] \<Rightarrow> (r @ [f], [])
      | x # xs \<Rightarrow>
          if x = COMMA then parse_row COMMA (r @ [f]) xs else (r @ [f], skip_lf xs))"
    unfolding cc tr using r by (cases rest) auto
  then show ?thesis using False by (simp add: escapeCSVField_Some)
qed
lemma csv_line_single: "csv_line [f] = escapeCSVField (Some f)"
  by (simp add: csv_line_def)

lemma csv_line_Cons:
  "fs \<noteq> [] \<Longrightarrow> csv_line (f # fs) = escapeCSVField (Some f) @ COMMA # csv_line fs"
  by (cases fs) (simp_all add: csv_line_def)

lemma parse_row_line:
  assumes "fs \<noteq> []"
    and "\<forall>f \<in> set fs. survives f"
    and "tail = [] \<or> hd tail = CR"
    and "tail = [] \<longrightarrow> last fs \<noteq> []"
  shows "parse_row COMMA r (csv_line fs @ tail) = (r @ fs, skip_lf (tl tail))"
  using assms
proof (induction fs arbitrary: r rule: list_nonempty_induct)
  case (single f)
  have s: "survives f" using single by simp
  have ne: "f \<noteq> [] \<or> tail \<noteq> []" using single by auto
  have rest: "tail = [] \<or> hd tail = COMMA \<or> hd tail = CR" using single by auto
  show ?case
    unfolding csv_line_single parse_row_field [OF s rest ne]
    using single(2) by (cases tail) (auto simp: skip_lf_def)
next
  case (cons f fs)
  have s: "survives f" using cons by simp
  have rest: "COMMA # csv_line fs @ tail = [] \<or> hd (COMMA # csv_line fs @ tail) = COMMA
      \<or> hd (COMMA # csv_line fs @ tail) = CR"
    by simp
  have ne: "f \<noteq> [] \<or> COMMA # csv_line fs @ tail \<noteq> []" by simp
  have ih: "parse_row COMMA (r @ [f]) (csv_line fs @ tail) = ((r @ [f]) @ fs, skip_lf (tl tail))"
    using cons.IH [of "r @ [f]"] cons.prems cons.hyps by simp
  have "parse_row COMMA r (escapeCSVField (Some f) @ COMMA # csv_line fs @ tail)
      = parse_row COMMA (r @ [f]) (csv_line fs @ tail)"
    unfolding parse_row_field [OF s rest ne] by simp
  then show ?case using ih cons.hyps by (simp add: csv_line_Cons)
qed

lemma row_kept_by_parser:
  "row_survives fs \<Longrightarrow> length fs > 0 \<and> \<not> (length fs = 1 \<and> fs ! 0 = [])"
  by (cases fs) (auto simp: row_survives_def)

lemma parse_rows_empty: "parse_rows d acc [] = acc"
  by (subst parse_rows.simps) simp

lemma parse_rows_step:
  assumes "t \<noteq> []" and "parse_row d [] t = (fs, rest)"
    and "length fs > 0 \<and> \<not> (length fs = 1 \<and> fs ! 0 = [])"
  shows "parse_rows d acc t = parse_rows d (acc @ [fs]) rest"
  using assms by (subst parse_rows.simps) (simp add: Let_def)

lemma parse_rows_lines:
  assumes "\<forall>fs \<in> set ls. row_survives fs"
    and "ls \<noteq> [] \<longrightarrow> last (last ls) \<noteq> []"
  shows "parse_rows COMMA acc (join [CR, LF] (map csv_line ls)) = acc @ ls"
  using assms
proof (induction ls arbitrary: acc rule: induct_list012)
  case 1
  then show ?case by (simp add: parse_rows_empty)
next
  case (2 fs)
  have g: "row_survives fs" using 2 by simp
  have p: "parse_row COMMA [] (csv_line fs @ []) = ([] @ fs, skip_lf (tl []))"
    by (rule parse_row_line) (use g 2 in \<open>auto simp: row_survives_def\<close>)
  then have p': "parse_row COMMA [] (csv_line fs) = (fs, [])" by (simp add: skip_lf_def)
  have ne: "csv_line fs \<noteq> []"
  proof
    assume "csv_line fs = []"
    then have "fs = []" using p' by (simp add: parse_row.simps(1))
    then show False using g by (simp add: row_survives_def)
  qed
  show ?case
    using parse_rows_step [OF ne p' row_kept_by_parser [OF g], of acc]
    by (simp add: parse_rows_empty)
next
  case (3 fs gs ls)
  have g: "row_survives fs" using 3 by simp
  let ?t = "join [CR, LF] (map csv_line (gs # ls))"
  have p: "parse_row COMMA [] (csv_line fs @ CR # LF # ?t) = ([] @ fs, skip_lf (tl (CR # LF # ?t)))"
    by (rule parse_row_line) (use g in \<open>auto simp: row_survives_def\<close>)
  then have p': "parse_row COMMA [] (csv_line fs @ CR # LF # ?t) = (fs, ?t)"
    by (simp add: skip_lf_def)
  have ne: "csv_line fs @ CR # LF # ?t \<noteq> []" by simp
  have ih: "parse_rows COMMA (acc @ [fs]) ?t = (acc @ [fs]) @ gs # ls"
    using 3 by simp
  have "join [CR, LF] (map csv_line (fs # gs # ls)) = csv_line fs @ CR # LF # ?t"
    by simp
  then show ?case
    using parse_rows_step [OF ne p' row_kept_by_parser [OF g], of acc] ih by simp
qed
text \<open>The exported text of rows that have one field for each header.\<close>

lemma export_row:
  assumes "length r = n"
  shows "map (\<lambda>c. escapeCSVField (field (map Some r) c)) [0..<n]
       = map (\<lambda>f. escapeCSVField (Some f)) r"
proof -
  have "map (\<lambda>c. escapeCSVField (field (map Some r) c)) [0..<length r]
      = map (\<lambda>c. escapeCSVField (Some (r ! c))) [0..<length r]"
    by (rule map_cong) (simp_all add: field_def)
  also have "\<dots> = map (\<lambda>f. escapeCSVField (Some f)) (map (\<lambda>c. r ! c) [0..<length r])"
    by (simp add: comp_def)
  also have "\<dots> = map (\<lambda>f. escapeCSVField (Some f)) r"
    by (simp add: map_nth)
  finally show ?thesis using assms by simp
qed

lemma exportCSV_lines:
  assumes "\<forall>r \<in> set rs. length r = length hdrs"
  shows "exportCSV hdrs (map (map Some) rs) = BOM # join [CR, LF] (map csv_line (hdrs # rs))"
proof -
  have m: "map (\<lambda>r. join [COMMA] (map (\<lambda>c. escapeCSVField (field r c)) [0..<length hdrs]))
          (map (map Some) rs)
      = map csv_line rs"
    using assms by (simp add: export_row csv_line_def)
  show ?thesis unfolding exportCSV_def Let_def m by (simp add: csv_line_def)
qed

text \<open>The table built from rows whose header names are not empty.\<close>

lemma buildData_named:
  assumes "\<forall>h \<in> set hdrs. h \<noteq> []"
  shows "buildData (hdrs # rs) = \<lparr> table_headers = hdrs, table_data = rs \<rparr>"
proof -
  have "map (\<lambda>(h, i). if h = [] then S ''Column '' @ decimal (i + 1) else h)
          (zip hdrs [0..<length hdrs])
      = map fst (zip hdrs [0..<length hdrs])"
  proof (rule map_cong [OF refl])
    fix p
    assume "p \<in> set (zip hdrs [0..<length hdrs])"
    then have "fst p \<in> set hdrs" by (metis prod.collapse set_zip_leftD)
    then have "fst p \<noteq> []" using assms by blast
    then show "(case p of (h, i) \<Rightarrow> if h = [] then S ''Column '' @ decimal (i + 1) else h) = fst p"
      by (simp add: case_prod_beta del: decimal.simps)
  qed
  also have "\<dots> = hdrs" by simp
  finally show ?thesis by (simp add: buildData_def del: decimal.simps)
qed

section \<open>Scenarios of the specification and of the repository's tests\<close>

text \<open>
  The model evaluated on inputs whose results the specification and the test file of the
  repository state.
\<close>

lemma scenario_parse_basic:
  "parseCSV (S ''a,b,c'' @ [LF] @ S ''1,2,3'')
     = \<lparr> parsed_rows = [[S ''a'', S ''b'', S ''c''], [S ''1'', S ''2'', S ''3'']],
         parsed_delim = COMMA \<rparr>"
  by code_simp

lemma scenario_parse_semicolon_bom_crlf:
  "parseCSV ([BOM] @ S ''id;name'' @ [CR, LF] @ S ''1;Alice'' @ [CR, LF] @ S ''2;Bob'')
     = \<lparr> parsed_rows = [[S ''id'', S ''name''], [S ''1'', S ''Alice''], [S ''2'', S ''Bob'']],
         parsed_delim = SEMICOLON \<rparr>"
  by code_simp

lemma scenario_parse_escaped_quotes:
  "parsed_rows (parseCSV ([DQUOTE] @ S ''he said '' @ [DQUOTE, DQUOTE] @ S ''hi''
       @ [DQUOTE, DQUOTE, DQUOTE] @ S '','' @ [DQUOTE] @ S ''ok'' @ [DQUOTE, LF] @ S ''val,val2''))
     = [[S ''he said '' @ [DQUOTE] @ S ''hi'' @ [DQUOTE], S ''ok''], [S ''val'', S ''val2'']]"
  by code_simp

lemma scenario_parse_trims_unquoted:
  "parsed_rows (parseCSV (S ''  a  ,  b  '' @ [LF] @ S ''  1  ,  2  ''))
     = [[S ''a'', S ''b''], [S ''1'', S ''2'']]"
  by code_simp

lemma scenario_parse_trailing_newline:
  "parsed_rows (parseCSV (S ''a,b'' @ [LF] @ S ''1,2'' @ [LF]))
     = [[S ''a'', S ''b''], [S ''1'', S ''2'']]
   \<and> parsed_rows (parseCSV []) = []"
  by code_simp

text \<open>
  Not a scenario of the tests: an empty last field is kept before a line break and dropped
  at the very end of the text, where the loop of \<^verbatim>\<open>parseCSV\<close> ends right after the delimiter
  without scanning the field that follows it.
\<close>

lemma parse_empty_field_at_end:
  "parsed_rows (parseCSV (S ''a,b'' @ [LF] @ S ''1,'' @ [LF]))
     = [[S ''a'', S ''b''], [S ''1'', []]]
   \<and> parsed_rows (parseCSV (S ''a,b'' @ [LF] @ S ''1,''))
     = [[S ''a'', S ''b''], [S ''1'']]"
  by code_simp

lemma scenario_buildData_column_names:
  "buildData [[[], S ''b'', []], [S ''1'', S ''2'', S ''3'']]
     = \<lparr> table_headers = [S ''Column 1'', S ''b'', S ''Column 3''],
         table_data = [[S ''1'', S ''2'', S ''3'']] \<rparr>"
  by code_simp

lemma scenario_detect_thousands:
  "detectColTypes Number_decimal Date_parse_iso [S ''n'']
     [[Some (S ''1,000'')], [Some (S ''2,500'')], [Some (S ''10,000'')]] 0 = Some TNumber"
proof -
  have "column_type Number_decimal Date_parse_iso
     [[Some (S ''1,000'')], [Some (S ''2,500'')], [Some (S ''10,000'')]] 0 = TNumber"
    by code_simp
  then show ?thesis
    using detectColTypes_lookup [of Number_decimal Date_parse_iso "[S ''n'']"
      "[[Some (S ''1,000'')], [Some (S ''2,500'')], [Some (S ''10,000'')]]" 0]
    by simp
qed

lemma scenario_detect_dates:
  "detectColTypes Number_decimal Date_parse_iso [S ''d'']
     [[Some (S ''2023-01-01'')], [Some (S ''2023-06-15'')], [Some (S ''2024-12-31'')]] 0
     = Some TDate"
proof -
  have "column_type Number_decimal Date_parse_iso
     [[Some (S ''2023-01-01'')], [Some (S ''2023-06-15'')], [Some (S ''2024-12-31'')]] 0
     = TDate"
    by code_simp
  then show ?thesis
    using detectColTypes_lookup [of Number_decimal Date_parse_iso "[S ''d'']"
      "[[Some (S ''2023-01-01'')], [Some (S ''2023-06-15'')], [Some (S ''2024-12-31'')]]" 0]
    by simp
qed

lemma scenario_escape_quotes:
  "escapeCSVField (Some (S ''he said '' @ [DQUOTE] @ S ''hi'' @ [DQUOTE]))
     = [DQUOTE] @ S ''he said '' @ [DQUOTE, DQUOTE] @ S ''hi'' @ [DQUOTE, DQUOTE, DQUOTE]
   \<and> escapeCSVField None = []
   \<and> escapeCSVField (Some (S ''hello'')) = S ''hello''"
  by code_simp

lemma scenario_page_list:
  "buildPageList 10 20 = [Page 1, Ellipsis, Page 9, Page 10, Page 11, Ellipsis, Page 20]
   \<and> buildPageList 1 8 = [Page 1, Page 2, Ellipsis, Page 8]
   \<and> buildPageList 20 20 = [Page 1, Ellipsis, Page 19, Page 20]"
  by code_simp

lemma scenario_total_pages:
  "calcTotalPages 51 25 = 3 \<and> calcTotalPages 50 25 = 2 \<and> calcTotalPages 0 25 = 1
   \<and> calcTotalPages 10000 0 = 1"
  by code_simp

lemma scenario_page_slice:
  "getPageSlice [1, 2, 3, 4, 5 :: nat] 3 2 = [5]
   \<and> getPageSlice [1, 2, 3, 4, 5 :: nat] 99 2 = []
   \<and> getPageSlice [1, 2, 3, 4, 5 :: nat] 1 0 = [1, 2, 3, 4, 5]"
  by code_simp

lemma scenario_sort_empty_first:
  "sortRows parseFloat_decimal Date_parse_iso compare_code_units
       [[Some (S ''5'')], [Some []], [Some (S ''3'')], [Some []]] 0 Asc (Some [0 \<mapsto> TNumber])
     = [[Some []], [Some []], [Some (S ''3'')], [Some (S ''5'')]]
   \<and> sortRows parseFloat_decimal Date_parse_iso compare_code_units
       [[Some (S ''35'')], [Some (S ''10'')], [Some (S ''200'')], [Some (S ''1'')]] 0 Desc
       (Some [0 \<mapsto> TNumber])
     = [[Some (S ''200'')], [Some (S ''35'')], [Some (S ''10'')], [Some (S ''1'')]]"
  by code_simp

lemma scenario_filter_global_search:
  "filterRows toLowerCase_ascii
       [[Some (S ''Alice''), Some (S ''30''), Some (S ''Engineer'')],
        [Some (S ''Bob''), Some (S ''25''), Some (S ''Designer'')],
        [Some (S ''Charlie''), Some (S ''35''), Some (S ''Engineer'')]]
       (Some [S ''name'', S ''age'', S ''role'']) (Some (S ''ENGINEER''))
       (Some [Some (S ''ali''), Some [], Some []])
     = [[Some (S ''Alice''), Some (S ''30''), Some (S ''Engineer'')]]"
  by code_simp

section \<open>Paginator: claims\<close>

text \<open>
  Claim C2, as stated, fails: a page below zero makes \<^verbatim>\<open>start\<close> negative, and
  \<^verbatim>\<open>slice\<close> then counts from the end of the array. Page \<open>-1\<close> with page size 2 on five
  rows returns the second and third row, where the clipped half-open slice \<open>[-4, -2)\<close> is
  empty.
\<close>

theorem getPageSlice_negative_page_counterexample:
  "getPageSlice [1, 2, 3, 4, 5 :: nat] (- 1) 2 = [2, 3]
   \<and> half_open_slice [1, 2, 3, 4, 5 :: nat] ((- 1 - 1) * 2) (- 1 * 2) = []"
  by (simp add: getPageSlice_def js_slice_def half_open_slice_drop_take)

text \<open>
  Claim C2, amended: page size 0 returns all rows (whatever the page); for a positive page
  size and a page that is not negative the result is the half-open slice
  \<open>[(page-1)*pageSize, page*pageSize)\<close> clipped to the rows that exist, and it is empty
  for page 0, for every page beyond the last row, and so for every page greater than
  \<open>calcTotalPages\<close>. The model is a total function: no input raises.
\<close>

theorem getPageSlice_clipped_slice:
  "(pageSize = 0 \<longrightarrow> getPageSlice rows page pageSize = rows)
   \<and> (0 < pageSize \<and> 0 \<le> page \<longrightarrow>
        getPageSlice rows page pageSize
          = half_open_slice rows ((page - 1) * pageSize) (page * pageSize))
   \<and> (0 < pageSize \<and> (page = 0 \<or> int (length rows) \<le> (page - 1) * pageSize) \<longrightarrow>
        getPageSlice rows page pageSize = [])
   \<and> (0 < pageSize \<and> calcTotalPages (int (length rows)) pageSize < page \<longrightarrow>
        getPageSlice rows page pageSize = [])"
proof (intro conjI impI)
  assume "pageSize = 0"
  then show "getPageSlice rows page pageSize = rows" by (simp add: getPageSlice_def)
next
  assume "0 < pageSize \<and> 0 \<le> page"
  then show "getPageSlice rows page pageSize
          = half_open_slice rows ((page - 1) * pageSize) (page * pageSize)"
    by (simp add: getPageSlice_half_open)
next
  assume a: "0 < pageSize \<and> (page = 0 \<or> int (length rows) \<le> (page - 1) * pageSize)"
  show "getPageSlice rows page pageSize = []"
  proof (cases "page = 0")
    case True
    then show ?thesis using a by (simp add: getPageSlice_page0)
  next
    case False
    then have le: "int (length rows) \<le> (page - 1) * pageSize" using a by simp
    have "0 \<le> (page - 1) * pageSize" using le by linarith
    then have "0 \<le> page - 1" using a by (simp add: zero_le_mult_iff)
    then have "1 \<le> page" by simp
    moreover have "length rows \<le> nat ((page - 1) * pageSize)" using le by linarith
    ultimately show ?thesis using a by (simp add: getPageSlice_pos)
  qed
next
  assume a: "0 < pageSize \<and> calcTotalPages (int (length rows)) pageSize < page"
  let ?k = "calcTotalPages (int (length rows)) pageSize"
  have k1: "1 \<le> ?k" using a by (simp add: calcTotalPages_div)
  have "int (length rows) \<le> ?k * pageSize"
    using a calcTotalPages_covers [of pageSize "length rows"] by simp
  also have "\<dots> \<le> (page - 1) * pageSize"
    by (rule mult_right_mono) (use a in auto)
  finally have le: "int (length rows) \<le> (page - 1) * pageSize" .
  have "1 \<le> page" using a k1 by linarith
  moreover have "length rows \<le> nat ((page - 1) * pageSize)" using le by linarith
  ultimately show "getPageSlice rows page pageSize = []"
    using a by (simp add: getPageSlice_pos)
qed

theorem getPageSlice_clipped_slice_witness:
  "getPageSlice [1, 2, 3, 4, 5 :: nat] 7 0 = [1, 2, 3, 4, 5]
   \<and> (0 :: int) < 2 \<and> (0 :: int) \<le> 3
   \<and> getPageSlice [1, 2, 3, 4, 5 :: nat] 3 2 = half_open_slice [1, 2, 3, 4, 5] 4 6
   \<and> int (length [1, 2, 3, 4, 5 :: nat]) \<le> (99 - 1) * 2
   \<and> getPageSlice [1, 2, 3, 4, 5 :: nat] 99 2 = []
   \<and> calcTotalPages (int (length [1, 2, 3, 4, 5 :: nat])) 2 < 4
   \<and> getPageSlice [1, 2, 3, 4, 5 :: nat] 4 2 = []"
  using getPageSlice_clipped_slice [of 0 "[1, 2, 3, 4, 5 :: nat]" 7]
        getPageSlice_clipped_slice [of 2 "[1, 2, 3, 4, 5 :: nat]" 3]
        getPageSlice_clipped_slice [of 2 "[1, 2, 3, 4, 5 :: nat]" 99]
        getPageSlice_clipped_slice [of 2 "[1, 2, 3, 4, 5 :: nat]" 4]
  by (simp add: half_open_slice_drop_take calcTotalPages_div)

text \<open>
  Claim C7: for every row sequence and every positive page size, the pages
  \<open>1..calcTotalPages (length rows) pageSize\<close> concatenated are the rows themselves: no row
  is missing, duplicated or reordered.
\<close>

theorem pagination_coverage:
  assumes "0 < pageSize"
  shows "concat (map (\<lambda>p. getPageSlice rows p pageSize)
            [1..calcTotalPages (int (length rows)) pageSize]) = rows"
proof -
  define k where "k = nat (calcTotalPages (int (length rows)) pageSize)"
  have k1: "calcTotalPages (int (length rows)) pageSize = int k"
    using assms by (simp add: k_def calcTotalPages_div)
  have "int (length rows) \<le> int k * pageSize"
    using calcTotalPages_covers [OF assms, of "length rows"] k1 by simp
  then have "int (length rows) \<le> int (k * nat pageSize)" using assms by simp
  then have le: "length rows \<le> k * nat pageSize" by linarith
  have "concat (map (\<lambda>p. getPageSlice rows p pageSize) [1..int k])
      = concat (map (\<lambda>p. getPageSlice rows (int p) pageSize) [1..<Suc k])"
    by (simp add: upto_one_int comp_def)
  also have "\<dots> = take (k * nat pageSize) rows" by (rule pages_concat [OF assms])
  also have "\<dots> = rows" using le by simp
  finally show ?thesis by (simp add: k1)
qed


theorem pagination_coverage_witness:
  "(0 :: int) < 2
   \<and> concat (map (\<lambda>p. getPageSlice [1, 2, 3, 4, 5 :: nat] p 2)
         [1..calcTotalPages (int (length [1, 2, 3, 4, 5 :: nat])) 2]) = [1, 2, 3, 4, 5]"
  using pagination_coverage [of 2 "[1, 2, 3, 4, 5 :: nat]"] by simp

text \<open>
  Claim C9: for every total of at least 1 (so for 1..100) and every current page in
  \<open>1..total\<close>, the page list has no two adjacent ellipsis markers, starts with page 1 and
  ends with page \<open>total\<close>; when \<open>total \<le> 7\<close> it is the list \<open>1..total\<close>, which holds no
  marker.
\<close>

theorem buildPageList_wellformed:
  assumes "1 \<le> tot" "1 \<le> cur" "cur \<le> tot"
  shows "\<not> adjacent_ellipsis (buildPageList cur tot)
       \<and> buildPageList cur tot \<noteq> []
       \<and> hd (buildPageList cur tot) = Page 1
       \<and> (1 < tot \<longrightarrow> last (buildPageList cur tot) = Page tot)
       \<and> (tot \<le> 7 \<longrightarrow> buildPageList cur tot = map Page [1..tot]
                      \<and> Ellipsis \<notin> set (buildPageList cur tot))"
proof -
  have ne: "buildPageList cur tot \<noteq> []"
    using assms(1) by (auto simp: buildPageList_def Let_def upto.simps)
  have small: "tot \<le> 7 \<Longrightarrow> buildPageList cur tot = map Page [1..tot]"
    by (simp add: buildPageList_def)
  have "tot \<le> 7 \<Longrightarrow> Ellipsis \<notin> set (buildPageList cur tot)"
    using small by auto
  then show ?thesis
    using ne small buildPageList_no_adjacent [of cur tot]
      buildPageList_hd [OF assms(1), of cur] buildPageList_last [OF assms(1), of cur]
    by simp
qed

theorem buildPageList_wellformed_witness:
  "(1 :: int) \<le> 20 \<and> (1 :: int) \<le> 10 \<and> (10 :: int) \<le> 20 \<and> (1 :: int) < 20
   \<and> \<not> adjacent_ellipsis (buildPageList 10 20)
   \<and> hd (buildPageList 10 20) = Page 1
   \<and> last (buildPageList 10 20) = Page 20
   \<and> (5 :: int) \<le> 7 \<and> buildPageList 2 5 = map Page [1..5]"
  using buildPageList_wellformed [of 20 10] buildPageList_wellformed [of 5 2] by simp

section \<open>Filter engine: claims\<close>

text \<open>
  Claim C3, as stated, fails: the column loop of \<^verbatim>\<open>filterRows\<close> stops at
  \<^verbatim>\<open>headers.length\<close>, so a filter entry at a column index beyond the headers is never
  applied. With one header, the row \<open>[a, b]\<close> and the filters \<open>['', x]\<close>, the row is kept
  although its field at column 1 does not contain \<open>x\<close>: the predicate of the claim, which
  ranges over all the filter entries, rejects the row.
\<close>

theorem filterRows_filter_beyond_headers_counterexample:
  "filterRows toLowerCase_ascii [[Some (S ''a''), Some (S ''b'')]] (Some [S ''h'']) None
       (Some [Some [], Some (S ''x'')])
     = [[Some (S ''a''), Some (S ''b'')]]
   \<and> \<not> row_kept toLowerCase_ascii (length [Some [], Some (S ''x'')]) []
          [Some [], Some (S ''x'')] [Some (S ''a''), Some (S ''b'')]"
proof
  show "filterRows toLowerCase_ascii [[Some (S ''a''), Some (S ''b'')]] (Some [S ''h'']) None
       (Some [Some [], Some (S ''x'')])
     = [[Some (S ''a''), Some (S ''b'')]]"
    by code_simp
next
  have "\<not> str_includes (toLowerCase_ascii (S ''b'')) (toLowerCase_ascii (S ''x''))"
    by code_simp
  then have n: "\<not> ci_substring toLowerCase_ascii (S ''x'') (S ''b'')"
    by (simp add: includes_ci)
  have x: "S ''x'' \<noteq> []" by (simp add: S_def)
  show "\<not> row_kept toLowerCase_ascii (length [Some [], Some (S ''x'')]) []
          [Some [], Some (S ''x'')] [Some (S ''a''), Some (S ''b'')]"
  proof
    assume "row_kept toLowerCase_ascii (length [Some [], Some (S ''x'')]) []
          [Some [], Some (S ''x'')] [Some (S ''a''), Some (S ''b'')]"
    then have "\<forall>c < 2. c < 2 \<longrightarrow> cell_str ([Some [], Some (S ''x'')] ! c) \<noteq> [] \<longrightarrow>
        ci_substring toLowerCase_ascii (cell_str ([Some [], Some (S ''x'')] ! c))
           (cell_str (field [Some (S ''a''), Some (S ''b'')] c))"
      by (simp add: row_kept_def)
    moreover have "(1 :: nat) < 2" by simp
    ultimately have "cell_str ([Some [], Some (S ''x'')] ! 1) \<noteq> [] \<longrightarrow>
        ci_substring toLowerCase_ascii (cell_str ([Some [], Some (S ''x'')] ! 1))
           (cell_str (field [Some (S ''a''), Some (S ''b'')] 1))"
      by blast
    then show False using n x by (simp add: cell_str_def field_def)
  qed
qed

text \<open>
  Claim C3, amended: \<^verbatim>\<open>filterRows\<close> returns exactly the rows of \<open>data\<close>, in their original
  relative order, for which (a) the global search is empty or at least one field of the
  row contains it as a case-insensitive substring, and (b) for every column index below
  \<^verbatim>\<open>headers.length\<close> whose filter entry is non-empty, that column's field of the row
  (missing or null read as the empty string) contains the entry as a case-insensitive
  substring. Absent headers count as no column, absent filters as no filter, an absent
  global search as the empty one. The host's \<^verbatim>\<open>toLowerCase\<close> is any function that maps
  the empty string, and nothing else, to the empty string.
\<close>

theorem filterRows_keeps_matching_rows:
  assumes "\<And>s. (toLowerCase s = []) = (s = [])"
  shows "filterRows toLowerCase data headers globalSearch colFilters
       = filter (row_kept toLowerCase (case headers of None \<Rightarrow> 0 | Some hs \<Rightarrow> length hs)
                   (cell_str globalSearch)
                   (case colFilters of None \<Rightarrow> [] | Some fs \<Rightarrow> fs)) data"
  unfolding filterRows_def Let_def
  apply (rule filter_cong [OF refl])
  apply (auto simp: col_loop_iff row_kept_def includes_ci assms list_ex_iff)
  done

theorem filterRows_keeps_matching_rows_witness:
  "(\<forall>s. (toLowerCase_ascii s = []) = (s = []))
   \<and> filterRows toLowerCase_ascii
        [[Some (S ''Alice''), Some (S ''30'')], [Some (S ''Bob''), None]]
        (Some [S ''name'', S ''age'']) (Some (S ''LI'')) (Some [Some (S ''a'')])
     = filter (row_kept toLowerCase_ascii (length [S ''name'', S ''age''])
                 (cell_str (Some (S ''LI''))) [Some (S ''a'')])
        [[Some (S ''Alice''), Some (S ''30'')], [Some (S ''Bob''), None]]"
proof (intro conjI allI)
  have h: "\<And>s. (toLowerCase_ascii s = []) = (s = [])"
    by (simp add: toLowerCase_ascii_def)
  show "(toLowerCase_ascii s = []) = (s = [])" for s by (rule h)
  show "filterRows toLowerCase_ascii
        [[Some (S ''Alice''), Some (S ''30'')], [Some (S ''Bob''), None]]
        (Some [S ''name'', S ''age'']) (Some (S ''LI'')) (Some [Some (S ''a'')])
     = filter (row_kept toLowerCase_ascii (length [S ''name'', S ''age''])
                 (cell_str (Some (S ''LI''))) [Some (S ''a'')])
        [[Some (S ''Alice''), Some (S ''30'')], [Some (S ''Bob''), None]]"
    using filterRows_keeps_matching_rows [of toLowerCase_ascii
        "[[Some (S ''Alice''), Some (S ''30'')], [Some (S ''Bob''), None]]"
        "Some [S ''name'', S ''age'']" "Some (S ''LI'')" "Some [Some (S ''a'')]", OF h]
    by (simp only: option.case)
qed

text \<open>
  Claim C8: filtering is idempotent. Applying the same headers, global search and column
  filters to an already filtered result changes nothing.
\<close>

theorem filterRows_idempotent:
  "filterRows toLowerCase (filterRows toLowerCase data h s f) h s f
     = filterRows toLowerCase data h s f"
  by (simp add: filterRows_def Let_def)

theorem filterRows_idempotent_witness:
  "filterRows toLowerCase_ascii
     (filterRows toLowerCase_ascii
        [[Some (S ''Alice''), Some (S ''30'')], [Some (S ''Bob''), None]]
        (Some [S ''name'', S ''age'']) (Some (S ''LI'')) (Some [Some (S ''a'')]))
     (Some [S ''name'', S ''age'']) (Some (S ''LI'')) (Some [Some (S ''a'')])
   = filterRows toLowerCase_ascii
        [[Some (S ''Alice''), Some (S ''30'')], [Some (S ''Bob''), None]]
        (Some [S ''name'', S ''age'']) (Some (S ''LI'')) (Some [Some (S ''a'')])"
  by (rule filterRows_idempotent)

section \<open>Parser: delimiter detection\<close>



section \<open>Type detector: claims\<close>

text \<open>
  Claim C5: \<^verbatim>\<open>detectColTypes\<close> assigns a type to each column index below
  \<^verbatim>\<open>headers.length\<close>, and to no other index. The type is computed over the non-empty
  trimmed values of the column among the first 500 rows: \<open>string\<close> when there is no such
  value; else \<open>number\<close> when the fraction of values that parse as numbers (commas
  stripped) is at least 0.8; else \<open>date\<close> when the fraction of values that parse as dates
  and did not count as numbers is at least 0.8; else \<open>string\<close>. Both thresholds are
  inclusive.
\<close>

theorem detectColTypes_column_type:
  "detectColTypes Number Date_parse hdrs rs c
     = (if c < length hdrs then Some (column_type Number Date_parse rs c) else None)"
  by (rule detectColTypes_lookup)

theorem detectColTypes_column_type_witness:
  "detectColTypes Number_decimal Date_parse_iso [S ''n'']
       [[Some (S ''1,000'')], [Some (S ''2'')], [Some (S ''x'')], [Some (S '' 3.5 '')],
        [Some (S '''')], [None], [Some (S ''4'')]] 0
     = Some (column_type Number_decimal Date_parse_iso
       [[Some (S ''1,000'')], [Some (S ''2'')], [Some (S ''x'')], [Some (S '' 3.5 '')],
        [Some (S '''')], [None], [Some (S ''4'')]] 0)
   \<and> column_type Number_decimal Date_parse_iso
       [[Some (S ''1,000'')], [Some (S ''2'')], [Some (S ''x'')], [Some (S '' 3.5 '')],
        [Some (S '''')], [None], [Some (S ''4'')]] 0 = TNumber"
proof
  show "detectColTypes Number_decimal Date_parse_iso [S ''n'']
       [[Some (S ''1,000'')], [Some (S ''2'')], [Some (S ''x'')], [Some (S '' 3.5 '')],
        [Some (S '''')], [None], [Some (S ''4'')]] 0
     = Some (column_type Number_decimal Date_parse_iso
       [[Some (S ''1,000'')], [Some (S ''2'')], [Some (S ''x'')], [Some (S '' 3.5 '')],
        [Some (S '''')], [None], [Some (S ''4'')]] 0)"
    using detectColTypes_column_type [of Number_decimal Date_parse_iso "[S ''n'']"
       "[[Some (S ''1,000'')], [Some (S ''2'')], [Some (S ''x'')], [Some (S '' 3.5 '')],
        [Some (S '''')], [None], [Some (S ''4'')]]" 0]
    by simp
  show "column_type Number_decimal Date_parse_iso
       [[Some (S ''1,000'')], [Some (S ''2'')], [Some (S ''x'')], [Some (S '' 3.5 '')],
        [Some (S '''')], [None], [Some (S ''4'')]] 0 = TNumber"
    by code_simp
qed

section \<open>Sort engine: claims\<close>

text \<open>
  Claim C10: the output of \<^verbatim>\<open>sortRows\<close> is a permutation of its input, whatever the
  column, the direction, the column types and the comparator's answers: every row occurs
  in the output as many times as in the input.
\<close>

theorem sortRows_permutation:
  "mset (sortRows parseFloat Date_parse localeCompare rs sortCol sortDir colTypes) = mset rs"
  by (simp add: sortRows_def Let_def mset_js_sort)

theorem sortRows_permutation_witness:
  "mset (sortRows parseFloat_decimal Date_parse_iso compare_code_units
           [[Some (S ''x'')], [Some (S ''5'')], [None], [Some (S ''x'')]] 0 Asc
           (Some [0 \<mapsto> TNumber]))
     = mset [[Some (S ''x'')], [Some (S ''5'')], [None], [Some (S ''x'')]]"
  by (rule sortRows_permutation)

text \<open>
  Claim C4, as stated, fails in a number column: \<^verbatim>\<open>parseFloat\<close> parses the text
  \<^verbatim>\<open>-Infinity\<close>, the comparator then subtracts negative infinity from negative infinity,
  which is \<^verbatim>\<open>NaN\<close>, and the sort reads \<^verbatim>\<open>NaN\<close> as ``equal''. The unparseable value
  \<^verbatim>\<open>abc\<close> therefore stays behind the parseable value \<^verbatim>\<open>-Infinity\<close> in ascending order.
\<close>

theorem sortRows_negative_infinity_counterexample:
  "sortRows parseFloat_decimal Date_parse_iso compare_code_units
       [[Some (S ''-Infinity'')], [Some (S ''abc'')]] 0 Asc (Some [0 \<mapsto> TNumber])
     = [[Some (S ''-Infinity'')], [Some (S ''abc'')]]
   \<and> number_of_row parseFloat_decimal 0 [Some (S ''-Infinity'')] = NegInfinity
   \<and> number_of_row parseFloat_decimal 0 [Some (S ''abc'')] = NaN"
  by code_simp

text \<open>
  Claim C4, amended. For \<^verbatim>\<open>sortRows\<close> in ascending order on a column \<open>sortCol \<ge> 0\<close>,
  with \<open>out\<close> the sorted rows:
  \<^item> in a number column, every row before a row whose value fails to parse has a value
    that fails to parse or parses to negative infinity; so every unparseable value is
    ordered before every value that parses to anything else;
  \<^item> in a date column, every row before a row whose value fails to parse has a value that
    fails to parse; so every unparseable value is ordered before every parseable one;
  \<^item> an unparseable value is compared as negative infinity, and two unparseable values
    compare as equal, in either direction: the comparator returns \<^verbatim>\<open>NaN\<close>, which the sort
    reads as 0.
  The model is a total function: the sort does not fail on unparseable input.
\<close>

theorem sortRows_unparseable_first:
  assumes "0 \<le> sortCol"
  shows
    "let c = nat sortCol;
         out = sortRows parseFloat Date_parse localeCompare rs sortCol Asc (Some types)
     in (types c = Some TNumber \<longrightarrow>
           (\<forall>i j. i < j \<and> j < length rs \<and> number_of_row parseFloat c (out ! j) = NaN \<longrightarrow>
              number_of_row parseFloat c (out ! i) = NaN
              \<or> number_of_row parseFloat c (out ! i) = NegInfinity))
        \<and> (types c = Some TDate \<longrightarrow>
           (\<forall>i j. i < j \<and> j < length rs \<and> date_of_row Date_parse c (out ! j) = None \<longrightarrow>
              date_of_row Date_parse c (out ! i) = None))
        \<and> (\<forall>a b. number_of_row parseFloat c a = NaN \<longrightarrow>
              compare_rows parseFloat Date_parse localeCompare c Asc TNumber a b
                = js_sub NegInfinity (nan_to_neg_infinity (number_of_row parseFloat c b)))
        \<and> (\<forall>a b. date_of_row Date_parse c a = None \<longrightarrow>
              compare_rows parseFloat Date_parse localeCompare c Asc TDate a b
                = js_sub NegInfinity
                    (nan_to_neg_infinity (date_to_number (date_of_row Date_parse c b))))
        \<and> (\<forall>a b dir. number_of_row parseFloat c a = NaN \<and> number_of_row parseFloat c b = NaN \<longrightarrow>
              sort_compare (compare_rows parseFloat Date_parse localeCompare c dir TNumber) a b
                = 0)
        \<and> (\<forall>a b dir. date_of_row Date_parse c a = None \<and> date_of_row Date_parse c b = None \<longrightarrow>
              sort_compare (compare_rows parseFloat Date_parse localeCompare c dir TDate) a b
                = 0)"
proof -
  let ?c = "nat sortCol"
  let ?out = "sortRows parseFloat Date_parse localeCompare rs sortCol Asc (Some types)"
  have n: "types ?c = Some TNumber \<longrightarrow>
           (\<forall>i j. i < j \<and> j < length rs \<and> number_of_row parseFloat ?c (?out ! j) = NaN \<longrightarrow>
              number_of_row parseFloat ?c (?out ! i) = NaN
              \<or> number_of_row parseFloat ?c (?out ! i) = NegInfinity)"
    using number_unparseable_before [OF assms] by blast
  have d: "types ?c = Some TDate \<longrightarrow>
           (\<forall>i j. i < j \<and> j < length rs \<and> date_of_row Date_parse ?c (?out ! j) = None \<longrightarrow>
              date_of_row Date_parse ?c (?out ! i) = None)"
    using date_unparseable_before [OF assms] by blast
  have cn: "\<forall>a b. number_of_row parseFloat ?c a = NaN \<longrightarrow>
              compare_rows parseFloat Date_parse localeCompare ?c Asc TNumber a b
                = js_sub NegInfinity (nan_to_neg_infinity (number_of_row parseFloat ?c b))"
    by (simp add: compare_rows_def Let_def number_of_row_def nan_to_neg_infinity_def isNaN_def)
  have cd: "\<forall>a b. date_of_row Date_parse ?c a = None \<longrightarrow>
              compare_rows parseFloat Date_parse localeCompare ?c Asc TDate a b
                = js_sub NegInfinity
                    (nan_to_neg_infinity (date_to_number (date_of_row Date_parse ?c b)))"
    by (simp add: compare_rows_def Let_def date_of_row_def nan_to_neg_infinity_def isNaN_def
        date_to_number_def)
  have en: "\<forall>a b dir. number_of_row parseFloat ?c a = NaN \<and> number_of_row parseFloat ?c b = NaN \<longrightarrow>
              sort_compare (compare_rows parseFloat Date_parse localeCompare ?c dir TNumber) a b
                = 0"
    using unparseable_numbers_equal(2) by blast
  have ed: "\<forall>a b dir. date_of_row Date_parse ?c a = None \<and> date_of_row Date_parse ?c b = None \<longrightarrow>
              sort_compare (compare_rows parseFloat Date_parse localeCompare ?c dir TDate) a b
                = 0"
    using unparseable_dates_equal(2) by blast
  show ?thesis unfolding Let_def using n d cn cd en ed by (intro conjI)
qed

theorem sortRows_unparseable_first_witness:
  "(0 :: int) \<le> 0 \<and> [0 \<mapsto> TNumber] (nat 0) = Some TNumber \<and> (0 :: nat) < 1
   \<and> 1 < length [[Some (S ''5'')], [Some (S '''')], [Some (S ''3'')], [Some (S ''x'')]]
   \<and> number_of_row parseFloat_decimal (nat 0)
        (sortRows parseFloat_decimal Date_parse_iso compare_code_units
           [[Some (S ''5'')], [Some (S '''')], [Some (S ''3'')], [Some (S ''x'')]] 0 Asc
           (Some [0 \<mapsto> TNumber]) ! 1) = NaN
   \<and> (number_of_row parseFloat_decimal (nat 0)
        (sortRows parseFloat_decimal Date_parse_iso compare_code_units
           [[Some (S ''5'')], [Some (S '''')], [Some (S ''3'')], [Some (S ''x'')]] 0 Asc
           (Some [0 \<mapsto> TNumber]) ! 0) = NaN
     \<or> number_of_row parseFloat_decimal (nat 0)
        (sortRows parseFloat_decimal Date_parse_iso compare_code_units
           [[Some (S ''5'')], [Some (S '''')], [Some (S ''3'')], [Some (S ''x'')]] 0 Asc
           (Some [0 \<mapsto> TNumber]) ! 0) = NegInfinity)
   \<and> sortRows parseFloat_decimal Date_parse_iso compare_code_units
           [[Some (S ''5'')], [Some (S '''')], [Some (S ''3'')], [Some (S ''x'')]] 0 Asc
           (Some [0 \<mapsto> TNumber])
       = [[Some (S '''')], [Some (S ''x'')], [Some (S ''3'')], [Some (S ''5'')]]"
proof -
  let ?rs = "[[Some (S ''5'')], [Some (S '''')], [Some (S ''3'')], [Some (S ''x'')]]"
  let ?out = "sortRows parseFloat_decimal Date_parse_iso compare_code_units ?rs 0 Asc
           (Some [0 \<mapsto> TNumber])"
  have h0: "(0 :: int) \<le> 0" by simp
  have h1: "[0 \<mapsto> TNumber] (nat 0) = Some TNumber" by simp
  have h2: "(0 :: nat) < 1 \<and> 1 < length ?rs" by simp
  have ev: "?out = [[Some (S '''')], [Some (S ''x'')], [Some (S ''3'')], [Some (S ''5'')]]"
    by code_simp
  have h3: "number_of_row parseFloat_decimal (nat 0) (?out ! 1) = NaN"
    unfolding ev by code_simp
  have "number_of_row parseFloat_decimal (nat 0) (?out ! 0) = NaN
     \<or> number_of_row parseFloat_decimal (nat 0) (?out ! 0) = NegInfinity"
    using sortRows_unparseable_first [where sortCol = 0 and types = "[0 \<mapsto> TNumber]"
        and rs = ?rs and parseFloat = parseFloat_decimal and Date_parse = Date_parse_iso
        and localeCompare = compare_code_units, OF h0, unfolded Let_def] h1 h2 h3
    by blast
  then show ?thesis using h0 h1 h2 h3 ev by simp
qed

section \<open>Round trip: claims\<close>

text \<open>
  Claim C1, as stated, fails. None of the data below holds a control character, and the
  table rebuilt from the exported text differs from the original:
  \<^item> the parser trims an unquoted field, and the exporter does not quote a field for its
    white space: the field \<open>" b"\<close> comes back as \<open>"b"\<close>;
  \<^item> the delimiter is sniffed from the first line: the headers \<open>"a;b;c"\<close> and \<open>"d"\<close>
    come back as \<open>"a"\<close>, \<open>"b"\<close> and \<open>"c,d"\<close>;
  \<^item> an empty header name is replaced: \<open>""\<close> comes back as \<open>"Column 1"\<close>;
  \<^item> a row that is one empty field is discarded.
\<close>

theorem round_trip_counterexample:
  "table_data (buildData (parsed_rows (parseCSV
       (exportCSV [S ''a''] [[Some (S '' b'')]])))) = [[S ''b'']]
   \<and> S ''b'' \<noteq> S '' b''
   \<and> table_headers (buildData (parsed_rows (parseCSV
       (exportCSV [S ''a;b;c'', S ''d''] [])))) = [S ''a'', S ''b'', S ''c,d'']
   \<and> table_headers (buildData (parsed_rows (parseCSV
       (exportCSV [[], S ''b''] [])))) = [S ''Column 1'', S ''b'']
   \<and> table_data (buildData (parsed_rows (parseCSV
       (exportCSV [S ''a''] [[Some []], [Some (S ''x'')]])))) = [[S ''x'']]"
  by code_simp

text \<open>
  Claim C1, amended. Take headers and rows such that
  \<^item> there is a header and no header name is empty;
  \<^item> every row has one field for each header, and no row is a single empty field;
  \<^item> every field and header name survives: it holds a comma, a quote, a CR or a LF (the
    exporter quotes it), or it has no white space at either end (the parser's trimming
    leaves it alone);
  \<^item> in the first line of the exported text (after the byte-order mark, up to the first
    line break) neither the semicolon nor the tab nor the pipe occurs more often than the
    comma;
  \<^item> the last field of the last row is not empty.
  Then the export (fields escaped, joined with commas, lines joined with CRLF, after a
  byte-order mark), parsed by \<^verbatim>\<open>parseCSV\<close> and rebuilt by \<^verbatim>\<open>buildData\<close>, gives back the
  headers and the rows exactly, with their commas, quotes and line breaks; and the
  delimiter found is the comma.

  The last condition leaves one case out, without promising or denying anything about
  it: \<^verbatim>\<open>parseCSV\<close> keeps an empty field that stands before a line break, and drops an empty
  field that stands after a delimiter at the very end of the text (lemma
  \<open>parse_empty_field_at_end\<close>).
\<close>

theorem export_parse_round_trip:
  assumes "hdrs \<noteq> []"
    and "\<forall>h \<in> set hdrs. h \<noteq> [] \<and> survives h"
    and "\<forall>r \<in> set rs. length r = length hdrs \<and> r \<noteq> [[]] \<and> (\<forall>f \<in> set r. survives f)"
    and "is_first_line (without_bom (exportCSV hdrs (map (map Some) rs))) line"
    and "count_list line SEMICOLON \<le> count_list line COMMA
         \<and> count_list line TAB \<le> count_list line COMMA
         \<and> count_list line PIPE \<le> count_list line COMMA"
    and "rs \<noteq> [] \<longrightarrow> last (last rs) \<noteq> []"
  shows "buildData (parsed_rows (parseCSV (exportCSV hdrs (map (map Some) rs))))
           = \<lparr> table_headers = hdrs, table_data = rs \<rparr>
       \<and> parsed_delim (parseCSV (exportCSV hdrs (map (map Some) rs))) = COMMA"
proof -
  let ?t = "join [CR, LF] (map csv_line (hdrs # rs))"
  have ex: "exportCSV hdrs (map (map Some) rs) = BOM # ?t"
    by (rule exportCSV_lines) (use assms(3) in blast)
  have sb: "strip_bom (BOM # ?t) = ?t" by (simp add: strip_bom_def)
  have "without_bom (BOM # ?t) = ?t" by (simp add: without_bom_def)
  then have "is_first_line ?t line" using assms(4) unfolding ex by simp
  then have fl: "firstLine ?t = line" by (rule is_first_line_firstLine)
  have dd: "detect_delim ?t = COMMA"
    unfolding detect_delim_comma_iff fl occurrences_count_list using assms(5) .
  have hs: "row_survives hdrs"
    using assms(1,2) by (cases hdrs) (auto simp: row_survives_def)
  have rsv: "\<forall>r \<in> set rs. row_survives r"
    using assms(1,3) by (auto simp: row_survives_def)
  have lst: "last (last (hdrs # rs)) \<noteq> []"
    using assms(1,2,6) by (cases "rs = []") auto
  have "parse_rows COMMA [] ?t = [] @ (hdrs # rs)"
    by (rule parse_rows_lines) (use hs rsv lst in auto)
  then have pr: "parse_rows COMMA [] ?t = hdrs # rs" by simp
  have bd: "buildData (hdrs # rs) = \<lparr> table_headers = hdrs, table_data = rs \<rparr>"
    by (rule buildData_named) (use assms(2) in blast)
  show ?thesis
    unfolding ex parseCSV_def Let_def sb dd pr using bd by simp
qed

theorem export_parse_round_trip_witness:
  "buildData (parsed_rows (parseCSV (exportCSV [S ''name;id'', S ''note'']
       (map (map Some)
          [[S ''Alice'', S ''loves '' @ [DQUOTE] @ S ''quotes'' @ [DQUOTE] @ S '', and commas''],
           [S '''', S ''line1'' @ [LF] @ S ''line2''],
           [S '' kept '' @ [CR], S ''x|y;z'']]))))
     = \<lparr> table_headers = [S ''name;id'', S ''note''],
         table_data =
          [[S ''Alice'', S ''loves '' @ [DQUOTE] @ S ''quotes'' @ [DQUOTE] @ S '', and commas''],
           [S '''', S ''line1'' @ [LF] @ S ''line2''],
           [S '' kept '' @ [CR], S ''x|y;z'']] \<rparr>
   \<and> is_first_line (without_bom (exportCSV [S ''name;id'', S ''note'']
       (map (map Some)
          [[S ''Alice'', S ''loves '' @ [DQUOTE] @ S ''quotes'' @ [DQUOTE] @ S '', and commas''],
           [S '''', S ''line1'' @ [LF] @ S ''line2''],
           [S '' kept '' @ [CR], S ''x|y;z'']]))) (S ''name;id,note'')"
proof -
  let ?hdrs = "[S ''name;id'', S ''note'']"
  let ?rs = "[[S ''Alice'', S ''loves '' @ [DQUOTE] @ S ''quotes'' @ [DQUOTE] @ S '', and commas''],
           [S '''', S ''line1'' @ [LF] @ S ''line2''],
           [S '' kept '' @ [CR], S ''x|y;z'']]"
  let ?line = "S ''name;id,note''"
  have h1: "?hdrs \<noteq> []" by simp
  have h2: "\<forall>h \<in> set ?hdrs. h \<noteq> [] \<and> survives h"
    by code_simp
  have h3: "\<forall>r \<in> set ?rs. length r = length ?hdrs \<and> r \<noteq> [[]] \<and> (\<forall>f \<in> set r. survives f)"
    by code_simp
  have h4: "is_first_line (without_bom (exportCSV ?hdrs (map (map Some) ?rs))) ?line"
    by code_simp
  have h5: "count_list ?line SEMICOLON \<le> count_list ?line COMMA
         \<and> count_list ?line TAB \<le> count_list ?line COMMA
         \<and> count_list ?line PIPE \<le> count_list ?line COMMA"
    by code_simp
  have h6: "?rs \<noteq> [] \<longrightarrow> last (last ?rs) \<noteq> []"
    by code_simp
  show ?thesis using export_parse_round_trip [OF h1 h2 h3 h4 h5 h6] h4 by simp
qed

end
